theory Spec2Isabelle
  imports Complex_Main "HOL-Library.AList" "HOL-Library.Log_Nat"
begin

section \<open>Values, errors and the graph snapshot\<close>

text \<open>
  The engine works on JSON-like Python values: the output of a component is a Python
  object, normally a dict with string keys. A dict is kept as an association list;
  a key is looked up with \<open>map_of\<close>.
\<close>

datatype json =
    JNull
  | JBool bool
  | JInt int
  | JStr string
  | JList "json list"
  | JDict "(string \<times> json) list"

datatype py_error =
    KeyError string
  | IndexError
  | ValueError string
  | ZeroDivisionError
  | Exception string

text \<open>\<open>str(e)\<close>, the text that the engine stores and sends for an exception.\<close>

fun str_of_error :: "py_error \<Rightarrow> string" where
  "str_of_error (KeyError k) = [CHR 0x27] @ k @ [CHR 0x27]"
| "str_of_error IndexError = ''list index out of range''"
| "str_of_error (ValueError m) = m"
| "str_of_error ZeroDivisionError = ''division by zero''"
| "str_of_error (Exception m) = m"

text \<open>
  A node of the snapshot: \<open>node['id']\<close>,
  \<open>node['data']['template']['component_type']\<close> and
  \<open>node['data'].get('input_values', {})\<close> (an absent key is the empty dict).
\<close>

record node =
  node_id :: string
  component_type :: string
  input_values :: "(string \<times> json) list"

text \<open>
  An edge of the snapshot. \<open>edge.get('sourceHandle')\<close> and
  \<open>edge.get('targetHandle')\<close> are \<open>None\<close> when the key is absent;
  \<open>edge.get('data', {})\<close> is the empty dict when the key is absent. Inside the edge
  data, \<open>isMultiVariableConnection\<close> is read for its truth value only, and an absent
  \<open>variableMappings\<close> is the empty list. A mapping that lacks one of its two keys
  has \<open>None\<close> there: the subscript \<open>mapping['outputVariable']\<close> raises KeyError.
\<close>

record variable_mapping =
  outputVariable :: "string option"
  targetVariable :: "string option"

record edge_data =
  isMultiVariableConnection :: bool
  variableMappings :: "variable_mapping list"

record edge =
  source :: string
  target :: string
  sourceHandle :: "string option"
  targetHandle :: "string option"
  data :: "edge_data option"

section \<open>Input resolution: \<open>_prepare_component_input\<close>\<close>

text \<open>Python's truth value of an optional string: \<open>None\<close> and \<open>''\<close> are false.\<close>

fun truthy_str :: "string option \<Rightarrow> bool" where
  "truthy_str None = False"
| "truthy_str (Some s) = (s \<noteq> [])"

text \<open>\<open>s.startswith(p)\<close>\<close>

definition startswith :: "string \<Rightarrow> string \<Rightarrow> bool" where
  "startswith s p = (take (length p) s = p)"

text \<open>\<open>s.split('.', 1)\<close>: split at the first dot, if there is one.\<close>

definition split_dot1 :: "string \<Rightarrow> string list" where
  "split_dot1 s =
     (if CHR ''.'' \<in> set s
      then [takeWhile (\<lambda>c. c \<noteq> CHR ''.'') s, tl (dropWhile (\<lambda>c. c \<noteq> CHR ''.'') s)]
      else [s])"

text \<open>\<open>xs[1]\<close>, which raises IndexError on a list shorter than two.\<close>

fun index1 :: "'a list \<Rightarrow> py_error + 'a" where
  "index1 (a # b # rest) = Inr b"
| "index1 xs = Inl IndexError"

text \<open>\<open>'.' in h and h.startswith('output.')\<close>\<close>

definition dotted_output :: "string \<Rightarrow> bool" where
  "dotted_output h = (CHR ''.'' \<in> set h \<and> startswith h ''output.'')"

text \<open>
  \<open>edge_data.get('isMultiVariableConnection') and edge_data.get('variableMappings')\<close>
\<close>

definition multi_variable :: "edge \<Rightarrow> bool" where
  "multi_variable e =
     (case data e of
        None \<Rightarrow> False
      | Some d \<Rightarrow> isMultiVariableConnection d \<and> variableMappings d \<noteq> [])"

text \<open>
  \<open>isinstance(source_output, dict) and 'output' in source_output\<close>, giving
  \<open>source_output['output']\<close>.
\<close>

fun nested_output :: "json \<Rightarrow> json option" where
  "nested_output (JDict d) = map_of d ''output''"
| "nested_output v = None"

text \<open>The loop over \<open>edge_data['variableMappings']\<close>.\<close>

fun apply_mappings ::
  "variable_mapping list \<Rightarrow> (string \<times> json) list \<Rightarrow> (string \<rightharpoonup> json) \<Rightarrow>
     py_error + (string \<rightharpoonup> json)" where
  "apply_mappings [] output_content input_data = Inr input_data"
| "apply_mappings (m # ms) output_content input_data =
     (case outputVariable m of
        None \<Rightarrow> Inl (KeyError ''outputVariable'')
      | Some output_var \<Rightarrow>
          (case targetVariable m of
             None \<Rightarrow> Inl (KeyError ''targetVariable'')
           | Some target_var \<Rightarrow>
               apply_mappings ms output_content
                 (case map_of output_content output_var of
                    Some v \<Rightarrow> input_data(target_var \<mapsto> v)
                  | None \<Rightarrow> input_data)))"

text \<open>
  The branch \<open>source_handle == 'output'\<close> with a nested \<open>output\<close> key;
  \<open>output_content\<close> is \<open>source_output['output']\<close>.
\<close>

definition single_output_port ::
  "json \<Rightarrow> string option \<Rightarrow> (string \<rightharpoonup> json) \<Rightarrow> py_error + (string \<rightharpoonup> json)" where
  "single_output_port output_content target_handle input_data =
     (case output_content of
        JDict oc \<Rightarrow>
          (case target_handle of
             None \<Rightarrow> Inr (input_data ++ map_of oc)
           | Some th \<Rightarrow>
               if th = [] then Inr (input_data ++ map_of oc)
               else
                 (case map_of oc th of
                    Some v \<Rightarrow> Inr (input_data(th \<mapsto> v))
                  | None \<Rightarrow>
                      if dotted_output th then
                        (case index1 (split_dot1 th) of
                           Inl err \<Rightarrow> Inl err
                         | Inr var_name \<Rightarrow>
                             (case map_of oc var_name of
                                Some v \<Rightarrow> Inr (input_data(th \<mapsto> v))
                              | None \<Rightarrow> Inr input_data))
                      else Inr (input_data ++ map_of oc)))
      | _ \<Rightarrow>
          (case target_handle of
             None \<Rightarrow> Inr input_data
           | Some th \<Rightarrow>
               if th = [] then Inr input_data
               else Inr (input_data(th \<mapsto> output_content))))"

text \<open>
  The branch for a source handle of the form \<open>output.FIELD\<close> and the last branch,
  the legacy multi-port structure.
\<close>

definition variable_extraction ::
  "string \<Rightarrow> json \<Rightarrow> string option \<Rightarrow> (string \<rightharpoonup> json) \<Rightarrow>
     py_error + (string \<rightharpoonup> json)" where
  "variable_extraction source_handle output_content target_handle input_data =
     (case index1 (split_dot1 source_handle) of
        Inl err \<Rightarrow> Inl err
      | Inr var_name \<Rightarrow>
          (case output_content of
             JDict oc \<Rightarrow>
               (case map_of oc var_name of
                  Some v \<Rightarrow>
                    (case target_handle of
                       None \<Rightarrow> Inr input_data
                     | Some th \<Rightarrow>
                         if th = [] then Inr input_data else Inr (input_data(th \<mapsto> v)))
                | None \<Rightarrow> Inr input_data)
           | _ \<Rightarrow> Inr input_data))"

definition legacy_multi_port ::
  "string \<Rightarrow> json \<Rightarrow> string option \<Rightarrow> (string \<rightharpoonup> json) \<Rightarrow> (string \<rightharpoonup> json)" where
  "legacy_multi_port source_handle source_output target_handle input_data =
     (case source_output of
        JDict so \<Rightarrow>
          (case map_of so source_handle of
             Some v \<Rightarrow>
               (case target_handle of
                  None \<Rightarrow> input_data
                | Some th \<Rightarrow> if th = [] then input_data else input_data(th \<mapsto> v))
           | None \<Rightarrow> input_data)
      | _ \<Rightarrow> input_data)"

text \<open>The body of the loop over the edges, for one edge.\<close>

definition connect_edge ::
  "string \<Rightarrow> (string \<rightharpoonup> json) \<Rightarrow> edge \<Rightarrow> (string \<rightharpoonup> json) \<Rightarrow>
     py_error + (string \<rightharpoonup> json)" where
  "connect_edge nid component_outputs e input_data =
     (if target e \<noteq> nid then Inr input_data
      else
        (case component_outputs (source e) of
           None \<Rightarrow> Inr input_data
         | Some source_output \<Rightarrow>
             (case sourceHandle e of
                None \<Rightarrow> Inr input_data
              | Some source_handle \<Rightarrow>
                  if source_handle = [] then Inr input_data
                  else if multi_variable e then
                    (case nested_output source_output of
                       Some (JDict oc) \<Rightarrow>
                         (case data e of
                            None \<Rightarrow> Inr input_data
                          | Some d \<Rightarrow> apply_mappings (variableMappings d) oc input_data)
                     | _ \<Rightarrow> Inr input_data)
                  else if source_handle = ''output'' \<and> nested_output source_output \<noteq> None then
                    (case nested_output source_output of
                       Some output_content \<Rightarrow>
                         single_output_port output_content (targetHandle e) input_data
                     | None \<Rightarrow> Inr input_data)
                  else if dotted_output source_handle \<and> nested_output source_output \<noteq> None then
                    (case nested_output source_output of
                       Some output_content \<Rightarrow>
                         variable_extraction source_handle output_content (targetHandle e)
                           input_data
                     | None \<Rightarrow> Inr input_data)
                  else
                    Inr (legacy_multi_port source_handle source_output (targetHandle e)
                           input_data))))"

fun connect_edges ::
  "string \<Rightarrow> (string \<rightharpoonup> json) \<Rightarrow> edge list \<Rightarrow> (string \<rightharpoonup> json) \<Rightarrow>
     py_error + (string \<rightharpoonup> json)" where
  "connect_edges nid component_outputs [] input_data = Inr input_data"
| "connect_edges nid component_outputs (e # es) input_data =
     (case connect_edge nid component_outputs e input_data of
        Inl err \<Rightarrow> Inl err
      | Inr input_data' \<Rightarrow> connect_edges nid component_outputs es input_data')"

definition prepare_component_input ::
  "string \<Rightarrow> edge list \<Rightarrow> (string \<rightharpoonup> json) \<Rightarrow> node \<Rightarrow> py_error + (string \<rightharpoonup> json)" where
  "prepare_component_input nid edges component_outputs n =
     connect_edges nid component_outputs edges (Map.empty ++ map_of (input_values n))"

section \<open>The dependency graph: build, validate, order\<close>

text \<open>
  The graph is a Python dict from node id to the set of ids the node depends on. The
  dict is an association list in insertion order; a set is a list without repetitions
  (Python fixes no iteration order for a set; the list keeps the order of insertion).
  \<open>build_execution_graph\<close> first gives every listed node the empty set, then adds for
  every edge the source to the set of the target; the \<open>defaultdict\<close> creates the entry
  of a target that is not a listed node.
\<close>

type_synonym graph = "(string \<times> string list) list"

text \<open>\<open>graph.get(node_id, set())\<close> and \<open>s.add(x)\<close>.\<close>

definition dependencies :: "graph \<Rightarrow> string \<Rightarrow> string list" where
  "dependencies g k = (case map_of g k of None \<Rightarrow> [] | Some deps \<Rightarrow> deps)"

definition set_add :: "string \<Rightarrow> string list \<Rightarrow> string list" where
  "set_add x xs = (if x \<in> set xs then xs else xs @ [x])"

definition build_execution_graph :: "node list \<Rightarrow> edge list \<Rightarrow> graph" where
  "build_execution_graph nodes edges =
     fold (\<lambda>e g. AList.update (target e) (set_add (source e) (dependencies g (target e))) g) edges
       (fold (\<lambda>n g. AList.update (node_id n) [] g) nodes [])"

text \<open>
  \<open>_validate_execution_graph\<close>: the recursive \<open>has_cycle\<close> with its two sets
  \<open>visited\<close> and \<open>rec_stack\<close>, here the state \<open>(visited, rec_stack)\<close> that is passed
  along. The recursion is bounded by fuel: \<open>None\<close> means that the fuel ran out. The
  validation starts with one more unit of fuel than the graph has entries, which is
  always enough (\<open>validate_execution_graph_returns\<close> below). Python's own recursion
  limit is not part of the model.
\<close>

type_synonym dfs_state = "string set \<times> string set"

primrec for_dependencies ::
  "(string \<Rightarrow> dfs_state \<Rightarrow> (bool \<times> dfs_state) option) \<Rightarrow> string list \<Rightarrow> dfs_state \<Rightarrow>
     (bool \<times> dfs_state) option" where
  "for_dependencies f [] st = Some (False, st)"
| "for_dependencies f (d # ds) st =
     (case f d st of
        None \<Rightarrow> None
      | Some (found, st') \<Rightarrow> if found then Some (True, st') else for_dependencies f ds st')"

primrec has_cycle :: "nat \<Rightarrow> graph \<Rightarrow> string \<Rightarrow> dfs_state \<Rightarrow> (bool \<times> dfs_state) option" where
  "has_cycle 0 g v st = None"
| "has_cycle (Suc fuel) g v st =
     (if v \<in> snd st then Some (True, st)
      else if v \<in> fst st then Some (False, st)
      else
        (case for_dependencies (has_cycle fuel g) (dependencies g v)
                (insert v (fst st), insert v (snd st)) of
           None \<Rightarrow> None
         | Some (found, st') \<Rightarrow>
             if found then Some (True, st') else Some (False, (fst st', snd st' - {v}))))"

fun check_all_nodes :: "nat \<Rightarrow> graph \<Rightarrow> node list \<Rightarrow> dfs_state \<Rightarrow> bool option" where
  "check_all_nodes fuel g [] st = Some True"
| "check_all_nodes fuel g (n # ns) st =
     (if node_id n \<in> fst st then check_all_nodes fuel g ns st
      else
        (case has_cycle fuel g (node_id n) st of
           None \<Rightarrow> None
         | Some (found, st') \<Rightarrow> if found then Some False else check_all_nodes fuel g ns st'))"

definition validate_execution_graph :: "graph \<Rightarrow> node list \<Rightarrow> bool option" where
  "validate_execution_graph g nodes = check_all_nodes (Suc (length g)) g nodes ({}, {})"

text \<open>
  \<open>_calculate_execution_order\<close>: Kahn's algorithm. \<open>in_degree\<close> is a dict in insertion
  order: the listed nodes, then the other keys of the graph. Every key of the graph is a
  key of \<open>in_degree\<close>, so the decrement \<open>in_degree[node_id] -= 1\<close> never misses its key.
\<close>

type_synonym in_degree = "(string \<times> int) list"

definition initial_in_degree :: "graph \<Rightarrow> node list \<Rightarrow> in_degree" where
  "initial_in_degree g nodes =
     fold (\<lambda>(k, deps) d. AList.update k (int (length deps)) d) g
       (fold (\<lambda>n d. AList.update (node_id n) 0 d) nodes [])"

text \<open>
  The body of the inner loop \<open>for node_id, dependencies in graph.items()\<close>, on the pair
  of \<open>in_degree\<close> and \<open>queue\<close>. The number of entries of \<open>in_degree\<close> above zero plus
  the length of the queue stays the same in the inner loop and goes down by one with
  every \<open>popleft\<close>, which is why the \<open>while\<close> loop ends.
\<close>

definition decrement :: "string \<Rightarrow> string \<times> string list \<Rightarrow> in_degree \<times> string list \<Rightarrow>
    in_degree \<times> string list" where
  "decrement current item st =
     (if current \<in> set (snd item)
      then
        (let d = AList.map_entry (fst item) (\<lambda>x. x - 1) (fst st)
         in (d, if map_of d (fst item) = Some 0 then snd st @ [fst item] else snd st))
      else st)"

definition positive_entries :: "in_degree \<Rightarrow> nat" where
  "positive_entries d = length (filter (\<lambda>p. 0 < snd p) d)"

lemma positive_entries_map_entry:
  "positive_entries (AList.map_entry k (\<lambda>x. x - 1) d) +
     (if map_of (AList.map_entry k (\<lambda>x. x - 1) d) k = Some 0 then 1 else 0) = positive_entries d"
  by (induction d) (auto simp: positive_entries_def)

lemma decrement_measure:
  "positive_entries (fst (decrement c item st)) + length (snd (decrement c item st)) =
     positive_entries (fst st) + length (snd st)"
  using positive_entries_map_entry[of "fst item" "fst st"]
  by (auto simp: decrement_def Let_def split: if_splits)

lemma fold_decrement_measure:
  "positive_entries (fst (fold (decrement c) g st)) + length (snd (fold (decrement c) g st)) =
     positive_entries (fst st) + length (snd st)"
  by (induction g arbitrary: st) (simp_all add: decrement_measure)

function kahn_loop :: "graph \<Rightarrow> in_degree \<Rightarrow> string list \<Rightarrow> string list \<Rightarrow> string list" where
  "kahn_loop g d [] execution_order = execution_order"
| "kahn_loop g d (current # queue) execution_order =
     kahn_loop g (fst (fold (decrement current) g (d, queue)))
       (snd (fold (decrement current) g (d, queue))) (execution_order @ [current])"
  by pat_completeness auto
termination
proof (relation "measure (\<lambda>(g, d, queue, order). positive_entries d + length queue)", goal_cases)
  case 1
  show ?case by simp
next
  case (2 g d current queue execution_order)
  show ?case
    using fold_decrement_measure[of current g "(d, queue)"] by simp
qed

definition calculate_execution_order :: "graph \<Rightarrow> node list \<Rightarrow> py_error + string list" where
  "calculate_execution_order g nodes =
     (let d = initial_in_degree g nodes;
          queue = map fst (filter (\<lambda>p. snd p = 0) d);
          execution_order = kahn_loop g d queue []
      in if length execution_order \<noteq> length nodes
         then Inl (ValueError ''Unable to determine execution order - graph may contain cycles'')
         else Inr execution_order)"

section \<open>Execution records, notifications and the coordinator\<close>

datatype run_status = Pending | Running | Completed | Failed | Cancelled | Skipped

record flow_execution =
  status :: run_status
  progress :: int
  total_components :: nat
  completed_components :: nat
  error_message :: "string option"
  final_output :: "(string \<times> json) list option"

record component_execution =
  c_component_id :: string
  c_component_type :: string
  c_execution_order :: nat
  c_status :: run_status
  c_output_data :: "json option"
  c_error_message :: "string option"

record execution_context =
  x_component_id :: string
  x_component_type :: string
  x_config_data :: node
  x_input_data :: "string \<rightharpoonup> json"

record execution_result =
  success :: bool
  output_data :: json
  r_error_message :: "string option"

text \<open>
  An executor is outside the engine: it either returns an \<open>ExecutionResult\<close> or raises
  an exception, of which the engine uses \<open>str(e)\<close> only. The factory maps a component
  type to its executor.
\<close>

datatype executor_outcome = Returns execution_result | Raises string

type_synonym executors = "string \<Rightarrow> (execution_context \<Rightarrow> executor_outcome) option"

datatype event =
    Execution_started
  | Component_started string
  | Component_completed string
  | Execution_progress int
  | Component_failed string string
  | Execution_completed "(string \<times> json) list"
  | Execution_failed string

datatype log_entry =
    Log_starting nat
  | Log_executing string
  | Log_component_failed string string
  | Log_execution_failed string
  | Log_completed

text \<open>
  The state that a run writes: the execution record, the component records, the log,
  the notifications sent, and the ids of the nodes whose executor has been invoked.
\<close>

record engine_state =
  execution :: flow_execution
  component_executions :: "component_execution list"
  logs :: "log_entry list"
  events :: "event list"
  executor_calls :: "string list"

definition initial_state :: "nat \<Rightarrow> engine_state" where
  "initial_state n =
     \<lparr>execution = \<lparr>status = Pending, progress = 0, total_components = n,
                    completed_components = 0, error_message = None, final_output = None\<rparr>,
      component_executions = [], logs = [], events = [], executor_calls = []\<rparr>"

definition notify :: "event \<Rightarrow> engine_state \<Rightarrow> engine_state" where
  "notify ev st = st\<lparr>events := events st @ [ev]\<rparr>"

definition log_execution :: "log_entry \<Rightarrow> engine_state \<Rightarrow> engine_state" where
  "log_execution l st = st\<lparr>logs := logs st @ [l]\<rparr>"

text \<open>Python's truth value of a JSON-like value.\<close>

fun truthy :: "json \<Rightarrow> bool" where
  "truthy JNull = False"
| "truthy (JBool b) = b"
| "truthy (JInt i) = (i \<noteq> 0)"
| "truthy (JStr s) = (s \<noteq> [])"
| "truthy (JList xs) = (xs \<noteq> [])"
| "truthy (JDict d) = (d \<noteq> [])"

definition update_execution_status ::
  "run_status \<Rightarrow> string option \<Rightarrow> engine_state \<Rightarrow> engine_state" where
  "update_execution_status s msg st =
     st\<lparr>execution := (execution st)
          \<lparr>status := s,
           error_message := (if truthy_str msg then msg else error_message (execution st))\<rparr>\<rparr>"

definition update_component_status ::
  "string \<Rightarrow> run_status \<Rightarrow> string option \<Rightarrow> engine_state \<Rightarrow> engine_state" where
  "update_component_status cid s msg st =
     st\<lparr>component_executions :=
          map (\<lambda>c. if c_component_id c = cid
                   then c\<lparr>c_status := s,
                          c_error_message := (if truthy_str msg then msg else c_error_message c)\<rparr>
                   else c)
            (component_executions st)\<rparr>"

definition update_component_execution ::
  "string \<Rightarrow> execution_result \<Rightarrow> engine_state \<Rightarrow> engine_state" where
  "update_component_execution cid result st =
     st\<lparr>component_executions :=
          map (\<lambda>c. if c_component_id c = cid
                   then c\<lparr>c_status := (if success result then Completed else Failed),
                          c_output_data := Some (output_data result),
                          c_error_message :=
                            (if success result then c_error_message c
                             else r_error_message result)\<rparr>
                   else c)
            (component_executions st)\<rparr>"

text \<open>
  The progress value \<open>int((completed / total) * 100)\<close> is computed in binary floating
  point. \<open>round_to_double\<close> rounds a positive rational to the nearest number with a
  53-bit significand, ties to even: the result of one IEEE 754 binary64 operation in the
  normal range. Python's \<open>/\<close> on two ints is the correctly rounded quotient, the
  product with \<open>100\<close> is rounded once more, and \<open>int\<close> truncates.
\<close>

definition round_half_even :: "rat \<Rightarrow> int" where
  "round_half_even m =
     (let f = \<lfloor>m\<rfloor>; d = m - of_int f
      in if d < 1 / 2 then f else if 1 / 2 < d then f + 1 else if even f then f else f + 1)"

definition binary_exponent :: "rat \<Rightarrow> int" where
  "binary_exponent x =
     (let (p, q) = quotient_of x; e = bitlen p - bitlen q
      in if 2 powi e \<le> x then e else e - 1)"

definition round_to_double :: "rat \<Rightarrow> rat" where
  "round_to_double x =
     (if x \<le> 0 then 0
      else let ulp = 2 powi (binary_exponent x - 52)
           in of_int (round_half_even (x / ulp)) * ulp)"

definition percent :: "nat \<Rightarrow> nat \<Rightarrow> int" where
  "percent completed total_count =
     \<lfloor>round_to_double (round_to_double (of_nat completed / of_nat total_count) * 100)\<rfloor>"

definition update_execution_progress ::
  "nat \<Rightarrow> nat \<Rightarrow> engine_state \<Rightarrow> py_error + engine_state" where
  "update_execution_progress completed total_count st =
     (if total_count = 0 then Inl ZeroDivisionError
      else Inr (st\<lparr>execution := (execution st)
                  \<lparr>progress := percent completed total_count,
                   completed_components := completed\<rparr>\<rparr>))"

text \<open>\<open>node_map = {node['id']: node for node in nodes}\<close>: the last node of an id wins.\<close>

definition node_map :: "node list \<Rightarrow> string \<Rightarrow> node option" where
  "node_map nodes nid = find (\<lambda>n. node_id n = nid) (rev nodes)"

text \<open>
  \<open>_create_component_execution_records\<close>: one pending record per entry of the
  execution order; \<open>node_map[node_id]\<close> raises KeyError for an id that is not a node.
\<close>

fun create_component_execution_records ::
  "node list \<Rightarrow> (nat \<times> string) list \<Rightarrow> engine_state \<Rightarrow> engine_state \<times> py_error option" where
  "create_component_execution_records nodes [] st = (st, None)"
| "create_component_execution_records nodes ((i, nid) # rest) st =
     (case node_map nodes nid of
        None \<Rightarrow> (st, Some (KeyError nid))
      | Some n \<Rightarrow>
          create_component_execution_records nodes rest
            (st\<lparr>component_executions := component_executions st @
                 [\<lparr>c_component_id = nid, c_component_type = component_type n,
                   c_execution_order = i, c_status = Pending, c_output_data = None,
                   c_error_message = None\<rparr>]\<rparr>))"

text \<open>
  The \<open>try\<close> block of the loop body of \<open>_execute_components\<close>, for the node at
  position \<open>i\<close>, in three parts: the start and the input resolution
  (\<open>try_component\<close>), the lookup and the call of the executor (\<open>invoke_executor\<close>),
  and the bookkeeping after the call (\<open>record_result\<close>). Each returns the state and
  the outputs as they are when the block ends or raises.
\<close>

definition record_result ::
  "nat \<Rightarrow> nat \<Rightarrow> string \<Rightarrow> execution_result \<Rightarrow> (string \<rightharpoonup> json) \<Rightarrow>
     engine_state \<Rightarrow> (engine_state \<times> (string \<rightharpoonup> json)) \<times> py_error option" where
  "record_result i total_count nid result component_outputs st =
     (let outs = component_outputs(nid \<mapsto> output_data result);
          st3 = notify (Component_completed nid) (update_component_execution nid result st)
      in case update_execution_progress (i + 1) total_count st3 of
           Inl err \<Rightarrow> ((st3, outs), Some err)
         | Inr st4 \<Rightarrow>
             ((notify (Execution_progress (percent (i + 1) total_count)) st4, outs), None))"

definition invoke_executor ::
  "executors \<Rightarrow> nat \<Rightarrow> nat \<Rightarrow> string \<Rightarrow> node \<Rightarrow> (string \<rightharpoonup> json) \<Rightarrow>
     (string \<rightharpoonup> json) \<Rightarrow> engine_state \<Rightarrow>
     (engine_state \<times> (string \<rightharpoonup> json)) \<times> py_error option" where
  "invoke_executor ex i total_count nid n input_data component_outputs st =
     (case ex (component_type n) of
        None \<Rightarrow>
          ((st, component_outputs),
           Some (ValueError (''Unknown component type: '' @ component_type n)))
      | Some executor \<Rightarrow>
          (case executor \<lparr>x_component_id = nid, x_component_type = component_type n,
                           x_config_data = n, x_input_data = input_data\<rparr> of
             Raises m \<Rightarrow>
               ((st\<lparr>executor_calls := executor_calls st @ [nid]\<rparr>, component_outputs),
                Some (Exception m))
           | Returns result \<Rightarrow>
               record_result i total_count nid result component_outputs
                 (st\<lparr>executor_calls := executor_calls st @ [nid]\<rparr>)))"

definition try_component ::
  "executors \<Rightarrow> edge list \<Rightarrow> nat \<Rightarrow> nat \<Rightarrow> string \<Rightarrow> node \<Rightarrow> (string \<rightharpoonup> json) \<Rightarrow>
     engine_state \<Rightarrow> (engine_state \<times> (string \<rightharpoonup> json)) \<times> py_error option" where
  "try_component ex edges i total_count nid n component_outputs st =
     (let st1 = notify (Component_started nid)
                  (update_component_status nid Running None
                     (log_execution (Log_executing nid) st))
      in case prepare_component_input nid edges component_outputs n of
           Inl err \<Rightarrow> ((st1, component_outputs), Some err)
         | Inr input_data \<Rightarrow>
             invoke_executor ex i total_count nid n input_data component_outputs st1)"

text \<open>The loop body with its \<open>except\<close> clause, which marks the node failed and raises again.\<close>

definition execute_component ::
  "executors \<Rightarrow> edge list \<Rightarrow> nat \<Rightarrow> nat \<Rightarrow> string \<Rightarrow> node \<Rightarrow> (string \<rightharpoonup> json) \<Rightarrow>
     engine_state \<Rightarrow> (engine_state \<times> (string \<rightharpoonup> json)) \<times> py_error option" where
  "execute_component ex edges i total_count nid n component_outputs st =
     (case try_component ex edges i total_count nid n component_outputs st of
        ((st', outs), None) \<Rightarrow> ((st', outs), None)
      | ((st', outs), Some err) \<Rightarrow>
          ((notify (Component_failed nid (str_of_error err))
              (log_execution (Log_component_failed nid (str_of_error err))
                 (update_component_status nid Failed (Some (str_of_error err)) st')),
            outs), Some err))"

fun execute_components ::
  "executors \<Rightarrow> node list \<Rightarrow> edge list \<Rightarrow> nat \<Rightarrow> (nat \<times> string) list \<Rightarrow>
     (string \<rightharpoonup> json) \<Rightarrow> engine_state \<Rightarrow> engine_state \<times> py_error option" where
  "execute_components ex nodes edges total_count [] component_outputs st = (st, None)"
| "execute_components ex nodes edges total_count ((i, nid) # rest) component_outputs st =
     (case node_map nodes nid of
        None \<Rightarrow> (st, Some (KeyError nid))
      | Some n \<Rightarrow>
          (case execute_component ex edges i total_count nid n component_outputs st of
             ((st', outs), None) \<Rightarrow> execute_components ex nodes edges total_count rest outs st'
           | ((st', outs), Some err) \<Rightarrow> (st', Some err)))"

text \<open>\<open>_finalize_execution\<close>; the component records are kept in execution order.\<close>

definition is_output_component :: "component_execution \<Rightarrow> bool" where
  "is_output_component c =
     ((case c_output_data c of None \<Rightarrow> False | Some v \<Rightarrow> truthy v)
      \<and> c_component_type c \<in> {''text_output'', ''file_output'', ''data_output''})"

definition collect_final_output :: "component_execution list \<Rightarrow> (string \<times> json) list" where
  "collect_final_output cs =
     fold (\<lambda>c out. case c_output_data c of
                       None \<Rightarrow> out
                     | Some v \<Rightarrow> AList.update (c_component_id c) v out)
       (filter is_output_component cs) []"

definition finalize_execution :: "engine_state \<Rightarrow> engine_state" where
  "finalize_execution st =
     (if list_all (\<lambda>c. c_status c = Completed) (component_executions st)
      then
        (let out = collect_final_output (component_executions st)
         in notify (Execution_completed out)
              (log_execution Log_completed
                 (st\<lparr>execution := (execution st)\<lparr>status := Completed, final_output := Some out\<rparr>\<rparr>)))
      else
        notify (Execution_failed ''One or more components failed'')
          (update_execution_status Failed (Some ''One or more components failed'') st))"

text \<open>
  \<open>execute_flow\<close> once the flow has been loaded and its execution record created. The
  part of the \<open>try\<close> block after the validation is \<open>run_flow\<close>; \<open>on_exception\<close> is the
  \<open>except\<close> clause, which marks the run failed and raises again. The result is the final
  state together with the exception that leaves \<open>execute_flow\<close>, if any.
\<close>

definition run_flow ::
  "executors \<Rightarrow> node list \<Rightarrow> edge list \<Rightarrow> graph \<Rightarrow> engine_state \<Rightarrow> engine_state \<times> py_error option" where
  "run_flow ex nodes edges g st =
     (case calculate_execution_order g nodes of
        Inl err \<Rightarrow> (st, Some err)
      | Inr execution_order \<Rightarrow>
          (case create_component_execution_records nodes
                  (zip [0..<length execution_order] execution_order) st of
             (st1, Some err) \<Rightarrow> (st1, Some err)
           | (st1, None) \<Rightarrow>
               (let st2 = notify Execution_started
                            (log_execution (Log_starting (length nodes))
                               (update_execution_status Running None st1))
                in case execute_components ex nodes edges (length execution_order)
                          (zip [0..<length execution_order] execution_order) Map.empty st2 of
                     (st3, Some err) \<Rightarrow> (st3, Some err)
                   | (st3, None) \<Rightarrow> (finalize_execution st3, None))))"

definition on_exception :: "engine_state \<times> py_error option \<Rightarrow> engine_state \<times> py_error option" where
  "on_exception r =
     (case snd r of
        None \<Rightarrow> r
      | Some err \<Rightarrow>
          (notify (Execution_failed (str_of_error err))
             (log_execution (Log_execution_failed (str_of_error err))
                (update_execution_status Failed (Some (str_of_error err)) (fst r))),
           Some err))"

definition execute_flow ::
  "executors \<Rightarrow> node list \<Rightarrow> edge list \<Rightarrow> (engine_state \<times> py_error option) option" where
  "execute_flow ex nodes edges =
     (if nodes = []
      then Some (update_execution_status Completed (Some ''No components to execute'')
                   (initial_state (length nodes)), None)
      else
        (case validate_execution_graph (build_execution_graph nodes edges) nodes of
           None \<Rightarrow> None
         | Some valid \<Rightarrow>
             if \<not> valid
             then Some (update_execution_status Failed (Some ''Invalid flow structure'')
                          (initial_state (length nodes)), None)
             else Some (on_exception
                          (run_flow ex nodes edges (build_execution_graph nodes edges)
                             (initial_state (length nodes))))))"

section \<open>The worker process manager\<close>

text \<open>
  \<open>FlowProcess\<close> with its key fields, its port and its status; the \<open>Popen\<close> handle is
  the process id, and the request statistics (\<open>last_request_time\<close>,
  \<open>request_count\<close>) play no part in creating and stopping. \<open>FlowProcessManager\<close> with
  its registry \<open>processes\<close> (keyed by \<open>get_process_key\<close>) and its two port sets, as
  \<open>__init__\<close> sets them up.
\<close>

datatype process_status = Starting | Ready | Error | Stopping

record flow_process =
  flow_id :: string
  flow_version :: string
  process_id :: nat
  port :: nat
  process_status :: process_status

record flow_api_config =
  config_flow_id :: string
  config_flow_version :: string

record process_manager =
  base_port :: nat
  max_processes :: nat
  processes :: "string \<rightharpoonup> flow_process"
  port_pool :: "nat set"
  used_ports :: "nat set"

datatype http_error = HTTPException nat string

definition new_manager :: "nat \<Rightarrow> nat \<Rightarrow> process_manager" where
  "new_manager b n =
     \<lparr>base_port = b, max_processes = n, processes = Map.empty,
      port_pool = {b..<b + n}, used_ports = {}\<rparr>"

definition get_process_key :: "string \<Rightarrow> string \<Rightarrow> string" where
  "get_process_key fid version = fid @ '':'' @ version"

text \<open>
  What happens outside the manager when a worker is spawned: writing the script or
  \<open>Popen\<close> raises (with \<open>str(e)\<close>), or the worker gets a pid and then either answers
  the health poll or does not within the startup timeout (with its diagnostic output).
\<close>

datatype spawn_outcome =
    Spawn_failed string
  | Startup_timeout nat string
  | Startup_ready nat

definition register_process :: "flow_process \<Rightarrow> process_manager \<Rightarrow> process_manager" where
  "register_process fp m =
     m\<lparr>processes := (processes m)(get_process_key (flow_id fp) (flow_version fp) \<mapsto> fp)\<rparr>"

definition release_port :: "nat \<Rightarrow> process_manager \<Rightarrow> process_manager" where
  "release_port p m = m\<lparr>port_pool := insert p (port_pool m), used_ports := used_ports m - {p}\<rparr>"

text \<open>
  \<open>_create_process\<close>. The argument \<open>p\<close> is the port that \<open>self.port_pool.pop()\<close>
  returns, an arbitrary element of the pool. The \<open>FlowProcess\<close> object is shared with
  the registry, so the status that \<open>_wait_for_process_ready\<close> sets is the status of the
  registry entry.
\<close>

definition create_process ::
  "nat \<Rightarrow> spawn_outcome \<Rightarrow> flow_api_config \<Rightarrow> process_manager \<Rightarrow>
     process_manager \<times> (http_error + flow_process)" where
  "create_process p outcome config m =
     (if port_pool m = {}
      then (m, Inl (HTTPException 503 ''No available ports for new process''))
      else
        (let m1 = m\<lparr>port_pool := port_pool m - {p}, used_ports := insert p (used_ports m)\<rparr>
         in case outcome of
              Spawn_failed e \<Rightarrow>
                (release_port p m1,
                 Inl (HTTPException 500 (''Failed to create flow process: '' @ e)))
            | Startup_timeout pid error_details \<Rightarrow>
                (let fp = \<lparr>flow_id = config_flow_id config,
                           flow_version = config_flow_version config,
                           process_id = pid, port = p, process_status = Starting\<rparr>
                 in (release_port p
                       (register_process (fp\<lparr>process_status := Error\<rparr>) (register_process fp m1)),
                     Inl (HTTPException 500
                            (''Failed to create flow process: '' @
                             ''Process failed to start within 30 seconds. Error: '' @
                             error_details))))
            | Startup_ready pid \<Rightarrow>
                (let fp = \<lparr>flow_id = config_flow_id config,
                           flow_version = config_flow_version config,
                           process_id = pid, port = p, process_status = Starting\<rparr>
                 in (register_process (fp\<lparr>process_status := Ready\<rparr>) (register_process fp m1),
                     Inr (fp\<lparr>process_status := Ready\<rparr>)))))"

text \<open>
  \<open>_stop_process\<close>: the clean-up is inside the \<open>try\<close> block, so it is skipped when
  terminating or killing the process raises.
\<close>

datatype stop_outcome = Stopped | Stop_raised

definition stop_process :: "stop_outcome \<Rightarrow> flow_process \<Rightarrow> process_manager \<Rightarrow> process_manager" where
  "stop_process outcome fp m =
     (case outcome of
        Stop_raised \<Rightarrow> m
      | Stopped \<Rightarrow>
          m\<lparr>used_ports := used_ports m - {port fp},
            port_pool := insert (port fp) (port_pool m),
            processes := (processes m)(get_process_key (flow_id fp) (flow_version fp) := None)\<rparr>)"

definition port_range :: "process_manager \<Rightarrow> nat set" where
  "port_range m = {base_port m..<base_port m + max_processes m}"

definition ports_partitioned :: "process_manager \<Rightarrow> bool" where
  "ports_partitioned m =
     (port_pool m \<inter> used_ports m = {} \<and> port_pool m \<union> used_ports m = port_range m)"

text \<open>Example configurations and two states of a manager with ports 8100 to 8149.\<close>

definition config1 :: flow_api_config where
  "config1 = \<lparr>config_flow_id = ''f1'', config_flow_version = ''1''\<rparr>"

definition config2 :: flow_api_config where
  "config2 = \<lparr>config_flow_id = ''f2'', config_flow_version = ''1''\<rparr>"

definition config3 :: flow_api_config where
  "config3 = \<lparr>config_flow_id = ''f3'', config_flow_version = ''1''\<rparr>"

definition after_timeout :: process_manager where
  "after_timeout =
     fst (create_process 8100 (Startup_timeout 4711 ''Address already in use'') config1
            (new_manager 8100 50))"

definition shared_port_state :: process_manager where
  "shared_port_state =
     fst (create_process 8100 (Startup_ready 4713) config3
       (stop_process Stopped
          \<lparr>flow_id = ''f1'', flow_version = ''1'', process_id = 4711, port = 8100,
           process_status = Error\<rparr>
          (fst (create_process 8100 (Startup_ready 4712) config2 after_timeout))))"
section \<open>Notions for the properties\<close>

text \<open>
  Well-formed edge data: every variable mapping carries both of its keys. An edge is
  skipped when its source has produced no output, when it has no source handle, or when
  no branch of the resolver matches its handles and fields.
\<close>

definition wf_mapping :: "variable_mapping \<Rightarrow> bool" where
  "wf_mapping m = (outputVariable m \<noteq> None \<and> targetVariable m \<noteq> None)"

definition wf_edge :: "edge \<Rightarrow> bool" where
  "wf_edge e = (case data e of None \<Rightarrow> True | Some d \<Rightarrow> list_all wf_mapping (variableMappings d))"

definition skipped :: "(string \<rightharpoonup> json) \<Rightarrow> edge \<Rightarrow> bool" where
  "skipped component_outputs e =
     (component_outputs (source e) = None
      \<or> \<not> truthy_str (sourceHandle e)
      \<or> (\<exists>source_output. component_outputs (source e) = Some source_output
            \<and> (\<forall>so. source_output \<noteq> JDict so))
      \<or> (\<exists>source_output. component_outputs (source e) = Some source_output
            \<and> multi_variable e \<and> (\<forall>oc. nested_output source_output \<noteq> Some (JDict oc)))
      \<or> (\<exists>so sh. component_outputs (source e) = Some (JDict so) \<and> \<not> multi_variable e
            \<and> sourceHandle e = Some sh \<and> map_of so sh = None
            \<and> (\<not> dotted_output sh \<or> map_of so ''output'' = None))
      \<or> (\<exists>so oc f. component_outputs (source e) = Some (JDict so)
            \<and> map_of so ''output'' = Some (JDict oc) \<and> \<not> multi_variable e
            \<and> sourceHandle e = Some (''output.'' @ f) \<and> map_of oc f = None)
      \<or> (\<exists>so oc f. component_outputs (source e) = Some (JDict so)
            \<and> map_of so ''output'' = Some (JDict oc) \<and> \<not> multi_variable e
            \<and> sourceHandle e = Some ''output''
            \<and> targetHandle e = Some (''output.'' @ f)
            \<and> map_of oc (''output.'' @ f) = None \<and> map_of oc f = None)
      \<or> (\<exists>source_output sh. component_outputs (source e) = Some source_output
            \<and> \<not> multi_variable e \<and> sourceHandle e = Some sh
            \<and> \<not> truthy_str (targetHandle e)
            \<and> (sh \<noteq> ''output'' \<or> (\<forall>oc. nested_output source_output \<noteq> Some (JDict oc)))))"

text \<open>The example of the specification: one upstream output with a nested object.\<close>

definition example_output :: json where
  "example_output = JDict [(''output'', JDict [(''text'', JStr ''hi''), (''length'', JInt 2)])]"

definition example_outputs :: "string \<rightharpoonup> json" where
  "example_outputs = [''a'' \<mapsto> example_output]"

definition example_node :: node where
  "example_node = \<lparr>node_id = ''b'', component_type = ''text_output'', input_values = []\<rparr>"

definition example_edge :: "string option \<Rightarrow> string option \<Rightarrow> edge" where
  "example_edge sh th =
     \<lparr>source = ''a'', target = ''b'', sourceHandle = sh, targetHandle = th, data = None\<rparr>"

definition mapped_edge :: edge where
  "mapped_edge =
     \<lparr>source = ''a'', target = ''b'', sourceHandle = Some ''output'', targetHandle = None,
      data = Some \<lparr>isMultiVariableConnection = True,
                   variableMappings = [\<lparr>outputVariable = Some ''text'', targetVariable = Some ''prompt''\<rparr>]\<rparr>\<rparr>"

text \<open>The progress values among the notifications sent.\<close>

fun progress_of :: "event \<Rightarrow> int list" where
  "progress_of (Execution_progress p) = [p]"
| "progress_of ev = []"

definition progress_events :: "engine_state \<Rightarrow> int list" where
  "progress_events st = concat (map progress_of (events st))"

text \<open>
  The relations behind the graph: \<open>(d, v) \<in> depends_on g\<close> when \<open>d\<close> is in the
  dependency set of \<open>v\<close>, and \<open>(s, t) \<in> edge_relation edges\<close> when an edge leads from
  \<open>s\<close> to \<open>t\<close>. A cycle is a node \<open>x\<close> with \<open>(x, x)\<close> in the transitive closure.
\<close>

definition depends_on :: "graph \<Rightarrow> (string \<times> string) set" where
  "depends_on g = {(d, v). d \<in> set (dependencies g v)}"

definition edge_relation :: "edge list \<Rightarrow> (string \<times> string) set" where
  "edge_relation edges = set (map (\<lambda>e. (source e, target e)) edges)"

text \<open>A flow of two nodes that depend on each other.\<close>

definition cyclic_nodes :: "node list" where
  "cyclic_nodes =
     [\<lparr>node_id = ''a'', component_type = ''text_input'', input_values = []\<rparr>,
      \<lparr>node_id = ''b'', component_type = ''text_output'', input_values = []\<rparr>]"

definition cyclic_edges :: "edge list" where
  "cyclic_edges =
     [\<lparr>source = ''a'', target = ''b'', sourceHandle = Some ''output'',
       targetHandle = Some ''text'', data = None\<rparr>,
      \<lparr>source = ''b'', target = ''a'', sourceHandle = Some ''output'',
       targetHandle = Some ''text'', data = None\<rparr>]"

text \<open>
  For the proofs about the execution order: the keys that a pass of the inner loop
  decrements, the invariant of the \<open>while\<close> loop, the order that the loop produces,
  and "\<open>a\<close> comes before \<open>b\<close>" in a list.
\<close>

definition hit :: "string \<Rightarrow> graph \<Rightarrow> string list" where
  "hit c items = map fst (filter (\<lambda>p. c \<in> set (snd p)) items)"

definition kahn_inv :: "graph \<Rightarrow> in_degree \<Rightarrow> string list \<Rightarrow> string list \<Rightarrow> bool" where
  "kahn_inv g d queue execution_order =
     (distinct (execution_order @ queue)
      \<and> set (execution_order @ queue) \<subseteq> fst ` set d
      \<and> fst ` set g \<subseteq> fst ` set d
      \<and> (\<forall>k \<in> fst ` set d.
            map_of d k = Some (int (card (set (dependencies g k) - set execution_order))))
      \<and> (\<forall>k \<in> fst ` set d.
            (k \<in> set (execution_order @ queue)) = (set (dependencies g k) \<subseteq> set execution_order))
      \<and> (\<forall>i < length execution_order.
            set (dependencies g (execution_order ! i)) \<subseteq> set (take i execution_order)))"

definition produced_order :: "graph \<Rightarrow> node list \<Rightarrow> string list" where
  "produced_order g nodes =
     kahn_loop g (initial_in_degree g nodes)
       (map fst (filter (\<lambda>p. snd p = 0) (initial_in_degree g nodes))) []"

definition precedes :: "string list \<Rightarrow> string \<Rightarrow> string \<Rightarrow> bool" where
  "precedes xs a b = (b \<in> set xs \<and> a \<in> set (takeWhile (\<lambda>x. x \<noteq> b) xs))"

text \<open>A flow of three nodes, listed against their dependencies.\<close>

definition example_flow_nodes :: "node list" where
  "example_flow_nodes =
     [\<lparr>node_id = ''ccc'', component_type = ''text_output'', input_values = []\<rparr>,
      \<lparr>node_id = ''bb'', component_type = ''prompt_template'', input_values = []\<rparr>,
      \<lparr>node_id = ''a'', component_type = ''text_input'', input_values = []\<rparr>]"

definition example_flow_edges :: "edge list" where
  "example_flow_edges =
     [\<lparr>source = ''a'', target = ''bb'', sourceHandle = Some ''output'',
       targetHandle = Some ''text'', data = None\<rparr>,
      \<lparr>source = ''bb'', target = ''ccc'', sourceHandle = Some ''output'',
       targetHandle = Some ''text'', data = None\<rparr>,
      \<lparr>source = ''a'', target = ''ccc'', sourceHandle = Some ''output'',
       targetHandle = Some ''extra'', data = None\<rparr>]"

text \<open>
  For the properties of a run: the statuses of the component records of a node, the set
  of nodes for which \<open>component_started\<close> was sent, and what a stretch of the loop over
  the nodes \<open>ids\<close> leaves as it is (\<open>frame\<close>).
\<close>

definition component_status :: "engine_state \<Rightarrow> string \<Rightarrow> run_status list" where
  "component_status st cid =
     map c_status (filter (\<lambda>c. c_component_id c = cid) (component_executions st))"

definition started :: "engine_state \<Rightarrow> string set" where
  "started st = {nid. Component_started nid \<in> set (events st)}"

text \<open>What one pass of the loop body leaves alone.\<close>

definition frame :: "string set \<Rightarrow> engine_state \<Rightarrow> engine_state \<Rightarrow> bool" where
  "frame ids st st' =
     (status (execution st') = status (execution st)
      \<and> error_message (execution st') = error_message (execution st)
      \<and> final_output (execution st') = final_output (execution st)
      \<and> (\<forall>cid. cid \<notin> ids \<longrightarrow> component_status st' cid = component_status st cid)
      \<and> (\<forall>cid. length (component_status st' cid) = length (component_status st cid))
      \<and> set (executor_calls st') \<subseteq> set (executor_calls st) \<union> ids
      \<and> started st' \<subseteq> started st \<union> ids
      \<and> started st \<subseteq> started st')"

text \<open>
  The behaviour of the executor of a node, whatever the context it is called with: it
  returns a result, it returns a result with \<open>success = False\<close>, or it raises.
\<close>

definition returns_always :: "executors \<Rightarrow> node list \<Rightarrow> string \<Rightarrow> bool" where
  "returns_always ex nodes p =
     (\<exists>nd f. node_map nodes p = Some nd \<and> ex (component_type nd) = Some f
        \<and> (\<forall>ctx. \<exists>r. f ctx = Returns r))"

definition returns_failure :: "executors \<Rightarrow> node list \<Rightarrow> string \<Rightarrow> bool" where
  "returns_failure ex nodes p =
     (\<exists>nd f. node_map nodes p = Some nd \<and> ex (component_type nd) = Some f
        \<and> (\<forall>ctx. \<exists>r. f ctx = Returns r \<and> \<not> success r))"

definition raises_always :: "executors \<Rightarrow> node list \<Rightarrow> string \<Rightarrow> string \<Rightarrow> bool" where
  "raises_always ex nodes p m =
     (\<exists>nd f. node_map nodes p = Some nd \<and> ex (component_type nd) = Some f
        \<and> (\<forall>ctx. f ctx = Raises m))"

text \<open>Three executors and two registries for the flow of three nodes.\<close>

definition succeeding_executor :: "execution_context \<Rightarrow> executor_outcome" where
  "succeeding_executor ctx =
     Returns \<lparr>success = True,
              output_data = JDict [(''output'', JDict [(''text'', JStr ''hi''), (''length'', JInt 2)])],
              r_error_message = None\<rparr>"

definition failing_executor :: "execution_context \<Rightarrow> executor_outcome" where
  "failing_executor ctx =
     Returns \<lparr>success = False, output_data = JDict [],
              r_error_message = Some ''Template is required''\<rparr>"

definition raising_executor :: "execution_context \<Rightarrow> executor_outcome" where
  "raising_executor ctx = Raises ''boom''"

definition failing_executors :: executors where
  "failing_executors =
     [''text_input'' \<mapsto> succeeding_executor, ''prompt_template'' \<mapsto> failing_executor,
      ''text_output'' \<mapsto> succeeding_executor]"

definition raising_executors :: executors where
  "raising_executors =
     [''text_input'' \<mapsto> succeeding_executor, ''prompt_template'' \<mapsto> raising_executor,
      ''text_output'' \<mapsto> succeeding_executor]"

text \<open>
  A flow of fifty nodes without edges whose executors all succeed, and the progress
  values that a run has sent.
\<close>

definition fifty_nodes :: "node list" where
  "fifty_nodes =
     map (\<lambda>i. \<lparr>node_id = replicate (Suc i) CHR ''n'', component_type = ''text_input'',
                input_values = []\<rparr>) [0..<50]"

definition run_progress :: "(engine_state \<times> py_error option) option \<Rightarrow> int list" where
  "run_progress r = (case r of None \<Rightarrow> [] | Some res \<Rightarrow> progress_events (fst res))"

definition all_succeed :: executors where
  "all_succeed ctype = Some succeeding_executor"

section \<open>Properties of input resolution\<close>

lemma connect_edges_append:
  "connect_edges nid outs (xs @ ys) inp =
     (case connect_edges nid outs xs inp of Inl err \<Rightarrow> Inl err
      | Inr inp' \<Rightarrow> connect_edges nid outs ys inp')"
  by (induction xs arbitrary: inp) (auto split: sum.splits)

lemma connect_edges_other:
  "\<forall>e \<in> set es. target e \<noteq> nid \<Longrightarrow> connect_edges nid outs es inp = Inr inp"
  by (induction es arbitrary: inp) (auto simp: connect_edge_def)

lemma connect_edges_single:
  assumes "\<forall>e' \<in> set pre \<union> set post. target e' \<noteq> nid"
  shows "connect_edges nid outs (pre @ e # post) inp =
     connect_edge nid outs e inp"
  using assms by (auto simp: connect_edges_append connect_edges_other split: sum.splits)

lemma split_dot1_output: "index1 (split_dot1 (''output.'' @ f)) = Inr f"
  by (simp add: split_dot1_def)

lemma dotted_output_prefix: "dotted_output (''output.'' @ f)"
  by (simp add: dotted_output_def startswith_def)

lemma dotted_output_split: "dotted_output h \<Longrightarrow> \<exists>f. h = ''output.'' @ f"
  unfolding dotted_output_def startswith_def
  by (metis append_take_drop_id)

lemma apply_mappings_total:
  "list_all wf_mapping ms \<Longrightarrow> \<exists>d. apply_mappings ms oc inp = Inr d"
  by (induction ms arbitrary: inp) (auto simp: wf_mapping_def)

lemma index1_dotted: "dotted_output h \<Longrightarrow> \<exists>f. index1 (split_dot1 h) = Inr f"
  by (auto simp: dotted_output_def split_dot1_def)

lemma single_output_port_total: "\<exists>d. single_output_port oc th inp = Inr d"
proof (cases oc)
  case (JDict d)
  show ?thesis
  proof (cases th)
    case None
    with JDict show ?thesis by (simp add: single_output_port_def)
  next
    case (Some h)
    show ?thesis
    proof (cases "dotted_output h")
      case True
      then obtain f where "index1 (split_dot1 h) = Inr f" using index1_dotted by blast
      with JDict Some True show ?thesis
        by (simp add: single_output_port_def split: option.splits)
    next
      case False
      with JDict Some show ?thesis
        by (simp add: single_output_port_def split: option.splits)
    qed
  qed
qed (cases th; simp add: single_output_port_def)+

lemma variable_extraction_total:
  assumes "dotted_output sh"
  shows "\<exists>d. variable_extraction sh oc th inp = Inr d"
proof -
  obtain f where "index1 (split_dot1 sh) = Inr f" using assms index1_dotted by blast
  then show ?thesis
    by (simp add: variable_extraction_def split: option.splits json.splits)
qed

lemma connect_edge_total:
  assumes "wf_edge e"
  shows "\<exists>d. connect_edge nid outs e inp = Inr d"
proof -
  have m: "\<And>d oc. data e = Some d \<Longrightarrow> \<exists>r. apply_mappings (variableMappings d) oc inp = Inr r"
    using assms apply_mappings_total by (simp add: wf_edge_def)
  have s: "\<And>oc. \<exists>r. single_output_port oc (targetHandle e) inp = Inr r"
    using single_output_port_total by blast
  have v: "\<And>sh oc. dotted_output sh \<Longrightarrow> \<exists>r. variable_extraction sh oc (targetHandle e) inp = Inr r"
    using variable_extraction_total by blast
  show ?thesis
    unfolding connect_edge_def using m s v
    by (simp split: option.splits json.splits)
qed

lemma connect_edges_total:
  "list_all wf_edge es \<Longrightarrow> \<exists>d. connect_edges nid outs es inp = Inr d"
proof (induction es arbitrary: inp)
  case Nil
  then show ?case by simp
next
  case (Cons e es)
  then obtain d where "connect_edge nid outs e inp = Inr d"
    using connect_edge_total[of e nid outs inp] by auto
  with Cons show ?case by simp
qed

lemma skip_not_dict:
  assumes "outs (source e) = Some so" "\<forall>d. so \<noteq> JDict d"
  shows "connect_edge nid outs e inp = Inr inp"
proof -
  have n: "nested_output so = None" using assms(2) by (cases so) auto
  have l: "legacy_multi_port sh so th inp = inp" for sh th
    using assms(2) by (cases so) (auto simp: legacy_multi_port_def)
  show ?thesis using assms(1) n l
    by (simp add: connect_edge_def split: option.splits)
qed

lemma skip_mappings:
  assumes "outs (source e) = Some so" "multi_variable e" "\<forall>oc. nested_output so \<noteq> Some (JDict oc)"
  shows "connect_edge nid outs e inp = Inr inp"
  using assms by (auto simp: connect_edge_def split: option.splits json.splits)

lemma skip_no_key:
  assumes "outs (source e) = Some (JDict so)" "\<not> multi_variable e"
    "sourceHandle e = Some sh" "map_of so sh = None"
    "\<not> dotted_output sh \<or> map_of so ''output'' = None"
  shows "connect_edge nid outs e inp = Inr inp"
proof -
  have l: "legacy_multi_port sh (JDict so) th inp = inp" for th
    using assms(4) by (simp add: legacy_multi_port_def)
  have o: "sh = ''output'' \<Longrightarrow> map_of so ''output'' = None" using assms(4) by simp
  show ?thesis using assms(1-3,5) l o
    by (auto simp: connect_edge_def)
qed

lemma skip_no_target:
  assumes "outs (source e) = Some so" "\<not> multi_variable e" "sourceHandle e = Some sh"
    "\<not> truthy_str (targetHandle e)"
    "sh \<noteq> ''output'' \<or> (\<forall>oc. nested_output so \<noteq> Some (JDict oc))"
  shows "connect_edge nid outs e inp = Inr inp"
proof -
  have th: "targetHandle e = None \<or> targetHandle e = Some []"
    using assms(4) by (cases "targetHandle e") auto
  have l: "legacy_multi_port sh so (targetHandle e) inp = inp"
    using th by (auto simp: legacy_multi_port_def split: json.splits option.splits)
  have v: "dotted_output sh \<Longrightarrow> variable_extraction sh oc (targetHandle e) inp = Inr inp" for oc
    using th index1_dotted[of sh]
    by (auto simp: variable_extraction_def split: json.splits option.splits)
  have s: "\<forall>d. oc \<noteq> JDict d \<Longrightarrow> single_output_port oc (targetHandle e) inp = Inr inp" for oc
    using th by (cases oc) (auto simp: single_output_port_def)
  show ?thesis
  proof (cases "sh = ''output'' \<and> nested_output so \<noteq> None")
    case True
    then obtain oc where oc: "nested_output so = Some oc" by auto
    with True assms(5) have "\<forall>d. oc \<noteq> JDict d" by auto
    from s[OF this] oc True assms(1-3) show ?thesis
      by (auto simp: connect_edge_def)
  next
    case False
    then show ?thesis using assms(1-3) l v
      by (auto simp: connect_edge_def split: option.splits)
  qed
qed

lemma skip_dotted_source:
  assumes "outs (source e) = Some (JDict so)" "map_of so ''output'' = Some (JDict oc)"
    "\<not> multi_variable e" "sourceHandle e = Some (''output.'' @ f)" "map_of oc f = None"
  shows "connect_edge nid outs e inp = Inr inp"
proof -
  have "variable_extraction (''output.'' @ f) (JDict oc) (targetHandle e) inp = Inr inp"
    using assms(5) by (simp add: variable_extraction_def split_dot1_output[simplified])
  then show ?thesis
    using assms(1-4) by (simp add: connect_edge_def dotted_output_prefix[simplified])
qed

lemma skip_dotted_target:
  assumes "outs (source e) = Some (JDict so)" "map_of so ''output'' = Some (JDict oc)"
    "\<not> multi_variable e" "sourceHandle e = Some ''output''"
    "targetHandle e = Some (''output.'' @ f)" "map_of oc (''output.'' @ f) = None"
    "map_of oc f = None"
  shows "connect_edge nid outs e inp = Inr inp"
proof -
  have "single_output_port (JDict oc) (Some (''output.'' @ f)) inp = Inr inp"
    using assms(6,7)
    by (simp add: single_output_port_def split_dot1_output[simplified]
        dotted_output_prefix[simplified])
  then show ?thesis
    using assms(1-5) by (simp add: connect_edge_def)
qed

lemma skip_no_source:
  assumes "outs (source e) = None \<or> \<not> truthy_str (sourceHandle e)"
  shows "connect_edge nid outs e inp = Inr inp"
  using assms
  by (cases "sourceHandle e") (auto simp: connect_edge_def split: option.splits)

lemma connect_edge_skipped:
  assumes "skipped outs e"
  shows "connect_edge nid outs e inp = Inr inp"
  using assms unfolding skipped_def
  apply (elim disjE)
  subgoal by (simp add: skip_no_source)
  subgoal by (simp add: skip_no_source)
  subgoal by (elim exE conjE) (rule skip_not_dict)
  subgoal by (elim exE conjE) (rule skip_mappings)
  subgoal by (elim exE conjE) (rule skip_no_key)
  subgoal by (elim exE conjE) (rule skip_dotted_source)
  subgoal by (elim exE conjE) (rule skip_dotted_target)
  subgoal by (elim exE conjE) (rule skip_no_target)
  done

lemma connect_edges_skip:
  "connect_edge nid outs e = Inr \<Longrightarrow>
     connect_edges nid outs (pre @ e # post) inp = connect_edges nid outs (pre @ post) inp"
  by (simp add: connect_edges_append split: sum.splits)


text \<open>
  C4. A target node without static values and with a single incoming edge
  (\<open>source_handle = "output"\<close>, \<open>target_handle = "text"\<close>, no variable mappings)
  whose source has stored \<open>{"output": {"text": "hi", "length": 2}}\<close> gets exactly
  the input map \<open>{"text": "hi"}\<close>. The other edges of the list end at other nodes.
\<close>

theorem prepare_input_named_field:
  assumes "target e = nid" "sourceHandle e = Some ''output''" "targetHandle e = Some ''text''"
    and "\<not> multi_variable e"
    and "outs (source e) = Some example_output"
    and "input_values n = []"
    and others: "\<forall>e' \<in> set pre \<union> set post. target e' \<noteq> nid"
  shows "prepare_component_input nid (pre @ e # post) outs n = Inr [''text'' \<mapsto> JStr ''hi'']"
  using assms(1-6)
  by (simp add: prepare_component_input_def connect_edges_single[OF others] connect_edge_def
      single_output_port_def example_output_def)

theorem prepare_input_named_field_witness:
  "target (example_edge (Some ''output'') (Some ''text'')) = ''b''
   \<and> sourceHandle (example_edge (Some ''output'') (Some ''text'')) = Some ''output''
   \<and> targetHandle (example_edge (Some ''output'') (Some ''text'')) = Some ''text''
   \<and> \<not> multi_variable (example_edge (Some ''output'') (Some ''text''))
   \<and> example_outputs (source (example_edge (Some ''output'') (Some ''text''))) = Some example_output
   \<and> input_values example_node = []
   \<and> prepare_component_input ''b'' ([] @ example_edge (Some ''output'') (Some ''text'') # [])
         example_outputs example_node = Inr [''text'' \<mapsto> JStr ''hi'']"
  using prepare_input_named_field[where e = "example_edge (Some ''output'') (Some ''text'')"
      and nid = "''b''" and outs = example_outputs and n = example_node
      and pre = "[]" and post = "[]"]
  by (simp add: example_edge_def example_outputs_def example_node_def multi_variable_def)

text \<open>
  C5. An incoming edge with \<open>source_handle = "output"\<close> and no variable mappings,
  whose source output is a dict with a nested \<open>output\<close> dict. If the target handle
  is not a key of the nested dict, has the form \<open>output.FIELD\<close> and \<open>FIELD\<close> is a
  key of the nested dict, that single field is extracted (it is stored under the target
  handle). If no target handle is given, or the handle is neither a key nor of the dotted
  form, all nested fields are merged into the input map at top level.
\<close>

theorem prepare_input_nested_output:
  assumes tgt: "target e = nid" and sh: "sourceHandle e = Some ''output''"
    and nm: "\<not> multi_variable e"
    and out: "outs (source e) = Some (JDict so)" "map_of so ''output'' = Some (JDict oc)"
    and others: "\<forall>e' \<in> set pre \<union> set post. target e' \<noteq> nid"
  shows "(targetHandle e = Some (''output.'' @ f) \<and> map_of oc (''output.'' @ f) = None
            \<and> map_of oc f = Some v
          \<longrightarrow> prepare_component_input nid (pre @ e # post) outs n =
                Inr ((map_of (input_values n))(''output.'' @ f \<mapsto> v)))
       \<and> (\<not> truthy_str (targetHandle e) \<or>
            (\<exists>th. targetHandle e = Some th \<and> map_of oc th = None \<and> \<not> dotted_output th)
          \<longrightarrow> prepare_component_input nid (pre @ e # post) outs n =
                Inr (map_of (input_values n) ++ map_of oc))"
  using tgt sh nm out
  by (auto simp: prepare_component_input_def connect_edges_single[OF others] connect_edge_def
      single_output_port_def split_dot1_output[simplified] dotted_output_prefix[simplified]
      split: option.splits)

theorem prepare_input_nested_output_witness:
  "prepare_component_input ''b'' ([] @ example_edge (Some ''output'') (Some ''output.text'') # [])
       example_outputs example_node = Inr [''output.text'' \<mapsto> JStr ''hi'']
   \<and> prepare_component_input ''b'' ([] @ example_edge (Some ''output'') None # [])
       example_outputs example_node = Inr [''length'' \<mapsto> JInt 2, ''text'' \<mapsto> JStr ''hi'']"
proof -
  let ?so = "[(''output'', JDict [(''text'', JStr ''hi''), (''length'', JInt 2)])]"
  let ?oc = "[(''text'', JStr ''hi''), (''length'', JInt 2)]"
  have 1: "prepare_component_input ''b'' ([] @ example_edge (Some ''output'') (Some ''output.text'') # [])
       example_outputs example_node = Inr [''output.text'' \<mapsto> JStr ''hi'']"
    using prepare_input_nested_output[where e = "example_edge (Some ''output'') (Some ''output.text'')"
      and nid = "''b''" and outs = example_outputs and n = example_node and so = ?so and oc = ?oc
      and pre = "[]" and post = "[]" and f = "''text''" and v = "JStr ''hi''"]
    by (simp add: example_edge_def example_outputs_def example_node_def example_output_def
        multi_variable_def)
  have 2: "prepare_component_input ''b'' ([] @ example_edge (Some ''output'') None # [])
       example_outputs example_node = Inr [''length'' \<mapsto> JInt 2, ''text'' \<mapsto> JStr ''hi'']"
    using prepare_input_nested_output[where e = "example_edge (Some ''output'') None"
      and nid = "''b''" and outs = example_outputs and n = example_node and so = ?so and oc = ?oc
      and pre = "[]" and post = "[]"]
    by (simp add: example_edge_def example_outputs_def example_node_def example_output_def
        multi_variable_def)
  from 1 2 show ?thesis by blast
qed



section \<open>Properties of the coordinator\<close>

text \<open>
  C9. For a snapshot without nodes \<open>execute_flow\<close> marks the execution record completed
  and returns: whatever the edges are, no component record is created, no executor is
  invoked, no notification is sent (so none of \<open>execution_started\<close>), and the record
  carries the message "No components to execute" in its \<open>error_message\<close> field.
\<close>

theorem execute_flow_no_nodes:
  "execute_flow ex [] edges =
     Some (\<lparr>execution = \<lparr>status = Completed, progress = 0, total_components = 0,
                          completed_components = 0,
                          error_message = Some ''No components to execute'',
                          final_output = None\<rparr>,
            component_executions = [], logs = [], events = [], executor_calls = []\<rparr>,
           None)"
  by (simp add: execute_flow_def update_execution_status_def initial_state_def)

section \<open>Properties of the worker process manager\<close>

lemma partition_new: "ports_partitioned (new_manager b n)"
  by (simp add: ports_partitioned_def new_manager_def port_range_def)

lemma partition_create:
  assumes "ports_partitioned m" "p \<in> port_pool m"
  shows "ports_partitioned (fst (create_process p outcome config m))"
  using assms
  by (cases outcome)
     (auto simp: ports_partitioned_def create_process_def port_range_def release_port_def
        register_process_def Let_def)

lemma partition_stop:
  assumes "ports_partitioned m" "port fp \<in> port_range m"
  shows "ports_partitioned (stop_process outcome fp m)"
  using assms
  by (cases outcome) (auto simp: ports_partitioned_def stop_process_def port_range_def)

lemma stop_twice:
  "stop_process outcome fp (stop_process Stopped fp m) = stop_process Stopped fp m"
  by (cases outcome) (auto simp: stop_process_def)

lemma create_twice_distinct_ports:
  assumes "create_process p (Startup_ready pid) config m = (m1, Inr fp)"
    and "create_process p' (Startup_ready pid') config' m1 = (m2, Inr fp')"
    and "p \<in> port_pool m" "p' \<in> port_pool m1"
  shows "port fp \<noteq> port fp'"
  using assms by (auto simp: create_process_def Let_def register_process_def split: if_splits)

text \<open>
  C7. A worker that does not pass its health poll within the startup timeout: the process
  is marked \<open>error\<close>, the diagnostic output is part of the raised failure and the port
  is back in the free pool, but the registry still holds the entry of the key.
\<close>

theorem startup_timeout_keeps_registry_entry:
  "create_process 8100 (Startup_timeout 4711 ''Address already in use'') config1
       (new_manager 8100 50) =
     (after_timeout,
      Inl (HTTPException 500
             (''Failed to create flow process: '' @
              ''Process failed to start within 30 seconds. Error: '' @
              ''Address already in use'')))
   \<and> processes after_timeout (get_process_key ''f1'' ''1'') =
       Some \<lparr>flow_id = ''f1'', flow_version = ''1'', process_id = 4711, port = 8100,
             process_status = Error\<rparr>
   \<and> 8100 \<in> port_pool after_timeout \<and> 8100 \<notin> used_ports after_timeout"
  by (simp add: after_timeout_def create_process_def new_manager_def config1_def
      register_process_def release_port_def get_process_key_def)

text \<open>
  C6. The free ports and the used ports partition the port range, and every creation and
  every stop keeps it so (\<open>partition_new\<close>, \<open>partition_create\<close>, \<open>partition_stop\<close>);
  a second stop of the same process changes nothing (\<open>stop_twice\<close>); two creations in a
  row get two ports (\<open>create_twice_distinct_ports\<close>). But two live processes of
  distinct keys can hold the same port: after the startup timeout of \<open>f1:1\<close> on port
  8100, \<open>f2:1\<close> is created on port 8100, the stale entry of \<open>f1:1\<close> is stopped, which
  frees port 8100 again, and \<open>f3:1\<close> is created on port 8100.
\<close>

theorem ready_processes_share_port:
  "map_option port (processes shared_port_state (get_process_key ''f2'' ''1'')) = Some 8100
   \<and> map_option port (processes shared_port_state (get_process_key ''f3'' ''1'')) = Some 8100
   \<and> map_option process_status (processes shared_port_state (get_process_key ''f2'' ''1''))
       = Some Ready
   \<and> map_option process_status (processes shared_port_state (get_process_key ''f3'' ''1''))
       = Some Ready
   \<and> ports_partitioned shared_port_state"
  by (auto simp: shared_port_state_def after_timeout_def create_process_def new_manager_def
      config1_def config2_def config3_def register_process_def release_port_def
      get_process_key_def stop_process_def ports_partitioned_def port_range_def)

section \<open>Progress values\<close>

lemma progress_events_notify [simp]:
  "progress_events (notify ev st) = progress_events st @ progress_of ev"
  by (simp add: progress_events_def notify_def)

lemma progress_events_updates [simp]:
  "progress_events (update_component_status cid s msg st) = progress_events st"
  "progress_events (update_component_execution cid r st) = progress_events st"
  "progress_events (update_execution_status s msg st) = progress_events st"
  "progress_events (log_execution l st) = progress_events st"
  "progress_events (st\<lparr>executor_calls := c\<rparr>) = progress_events st"
  by (simp_all add: progress_events_def update_component_status_def
      update_component_execution_def update_execution_status_def log_execution_def)

lemma record_result_progress:
  assumes "record_result i n nid r outs st = ((st', outs'), None)"
  shows "progress_events st' = progress_events st @ [percent (Suc i) n]"
  using assms
  by (auto simp: record_result_def update_execution_progress_def Let_def progress_events_def
      notify_def update_component_execution_def split: if_splits)

lemma execute_component_progress:
  assumes "execute_component ex edges i n nid nd outs st = ((st', outs'), None)"
  shows "progress_events st' = progress_events st @ [percent (Suc i) n]"
proof -
  from assms have t: "try_component ex edges i n nid nd outs st = ((st', outs'), None)"
    by (auto simp: execute_component_def split: prod.splits option.splits)
  then obtain inp where "invoke_executor ex i n nid nd inp outs
      (notify (Component_started nid) (update_component_status nid Running None
         (log_execution (Log_executing nid) st))) = ((st', outs'), None)"
    by (auto simp: try_component_def Let_def split: sum.splits)
  then obtain r st2 where "record_result i n nid r outs st2 = ((st', outs'), None)"
    and "progress_events st2 = progress_events st"
    by (auto simp: invoke_executor_def split: option.splits executor_outcome.splits)
  then show ?thesis using record_result_progress by simp
qed

lemma execute_components_progress:
  assumes "execute_components ex nodes edges n ixs outs st = (st', None)"
  shows "progress_events st' = progress_events st @ map (\<lambda>p. percent (Suc (fst p)) n) ixs"
  using assms
proof (induction ixs arbitrary: outs st)
  case Nil
  then show ?case by simp
next
  case (Cons p ixs)
  obtain i nid where p: "p = (i, nid)" by (cases p)
  from Cons.prems p obtain nd st1 outs1 where
    1: "execute_component ex edges i n nid nd outs st = ((st1, outs1), None)"
    and 2: "execute_components ex nodes edges n ixs outs1 st1 = (st', None)"
    by (auto split: option.splits prod.splits)
  from Cons.IH[OF 2] execute_component_progress[OF 1] p show ?case by simp
qed


section \<open>Properties of the graph validation\<close>

lemma dependencies_keys: "dependencies g v \<noteq> [] \<Longrightarrow> v \<in> fst ` set g"
  by (auto simp: dependencies_def split: option.splits dest: map_of_SomeD intro: rev_image_eqI)

text \<open>Shape of a search that finds no cycle.\<close>

lemma for_dependencies_shape:
  assumes f: "\<And>d st st'. f d st = Some (False, st') \<Longrightarrow>
                snd st' = snd st \<and> fst st \<subseteq> fst st' \<and> d \<in> fst st' \<and> d \<notin> snd st"
    and "for_dependencies f ds st = Some (False, st')"
  shows "snd st' = snd st \<and> fst st \<subseteq> fst st' \<and> set ds \<subseteq> fst st' - snd st"
  using assms(2)
proof (induction ds arbitrary: st)
  case Nil
  then show ?case by simp
next
  case (Cons d ds)
  from Cons.prems obtain st1 where 1: "f d st = Some (False, st1)"
    and 2: "for_dependencies f ds st1 = Some (False, st')"
    by (auto split: option.splits if_splits)
  from f[OF 1] Cons.IH[OF 2] show ?case by auto
qed

lemma has_cycle_shape:
  "has_cycle n g v st = Some (False, st') \<Longrightarrow>
     snd st' = snd st \<and> fst st \<subseteq> fst st' \<and> v \<in> fst st' \<and> v \<notin> snd st"
proof (induction n arbitrary: v st st')
  case 0
  then show ?case by simp
next
  case (Suc n)
  show ?case
  proof (cases "v \<in> snd st \<or> v \<in> fst st")
    case True
    with Suc.prems show ?thesis by (auto split: if_splits)
  next
    case False
    with Suc.prems obtain st1 where
      1: "for_dependencies (has_cycle n g) (dependencies g v) (insert v (fst st), insert v (snd st))
            = Some (False, st1)"
      and 2: "st' = (fst st1, snd st1 - {v})"
      by (auto split: option.splits if_splits)
    from for_dependencies_shape[of "has_cycle n g", OF Suc.IH 1] 2 False
    show ?thesis by auto
  qed
qed

text \<open>The fuel is enough.\<close>

lemma for_dependencies_returns:
  assumes f: "\<And>d st. fst st0 \<subseteq> fst st \<Longrightarrow> \<exists>r. f d st = Some r"
    and sh: "\<And>d st st'. f d st = Some (False, st') \<Longrightarrow> fst st \<subseteq> fst st'"
    and "fst st0 \<subseteq> fst st"
  shows "\<exists>r. for_dependencies f ds st = Some r"
  using assms(3)
proof (induction ds arbitrary: st)
  case Nil
  then show ?case by auto
next
  case (Cons d ds)
  from f[OF Cons.prems] obtain b st1 where 1: "f d st = Some (b, st1)" by fastforce
  show ?case
  proof (cases b)
    case True
    with 1 show ?thesis by auto
  next
    case False
    with 1 have "f d st = Some (False, st1)" by simp
    from sh[OF this] have "fst st \<subseteq> fst st1" .
    with Cons.prems have "fst st0 \<subseteq> fst st1" by blast
    from Cons.IH[OF this] 1 False show ?thesis by auto
  qed
qed

lemma has_cycle_returns:
  "card (fst ` set g - fst st) < n \<Longrightarrow> \<exists>r. has_cycle n g v st = Some r"
proof (induction n arbitrary: v st)
  case 0
  then show ?case by simp
next
  case (Suc n)
  show ?case
  proof (cases "v \<in> snd st \<or> v \<in> fst st")
    case True
    then show ?thesis by auto
  next
    case False
    let ?st1 = "(insert v (fst st), insert v (snd st))"
    have "\<exists>r. for_dependencies (has_cycle n g) (dependencies g v) ?st1 = Some r"
    proof (cases "v \<in> fst ` set g")
      case True
      with False have "card (fst ` set g - insert v (fst st)) < card (fst ` set g - fst st)"
        by (intro psubset_card_mono) auto
      with Suc.prems have small: "card (fst ` set g - insert v (fst st)) < n" by simp
      have "\<exists>r. has_cycle n g d s = Some r" if "fst ?st1 \<subseteq> fst s" for d s
      proof -
        from that have "fst ` set g - fst s \<subseteq> fst ` set g - insert v (fst st)" by auto
        then have "card (fst ` set g - fst s) \<le> card (fst ` set g - insert v (fst st))"
          by (intro card_mono) auto
        with small Suc.IH show ?thesis by auto
      qed
      then show ?thesis
        using for_dependencies_returns[of ?st1 "has_cycle n g" ?st1] has_cycle_shape
        by blast
    next
      case False
      then have "dependencies g v = []" using dependencies_keys by blast
      then show ?thesis by auto
    qed
    then obtain b st2 where "for_dependencies (has_cycle n g) (dependencies g v) ?st1 = Some (b, st2)"
      by fastforce
    with False show ?thesis by (cases b) auto
  qed
qed

lemma check_all_nodes_returns:
  "card (fst ` set g - fst st) < n \<Longrightarrow> \<exists>b. check_all_nodes n g ns st = Some b"
proof (induction ns arbitrary: st)
  case Nil
  then show ?case by auto
next
  case (Cons a ns)
  show ?case
  proof (cases "node_id a \<in> fst st")
    case True
    with Cons show ?thesis by auto
  next
    case False
    from has_cycle_returns[OF Cons.prems] obtain b st1
      where 1: "has_cycle n g (node_id a) st = Some (b, st1)" by fastforce
    show ?thesis
    proof (cases b)
      case True
      with 1 False show ?thesis by auto
    next
      case f: False
      with 1 have "has_cycle n g (node_id a) st = Some (False, st1)" by simp
      from has_cycle_shape[OF this] have "fst st \<subseteq> fst st1" by simp
      then have "card (fst ` set g - fst st1) \<le> card (fst ` set g - fst st)"
        by (intro card_mono) auto
      with Cons.prems have "card (fst ` set g - fst st1) < n" by simp
      from Cons.IH[OF this] 1 f False show ?thesis by auto
    qed
  qed
qed

lemma validate_execution_graph_returns: "\<exists>b. validate_execution_graph g nodes = Some b"
proof -
  have "card (fst ` set g) \<le> length g"
    by (metis card_image_le card_length le_trans List.finite_set)
  then have "card (fst ` set g - fst ({}::string set, {}::string set)) < Suc (length g)" by simp
  from check_all_nodes_returns[OF this] show ?thesis
    by (simp add: validate_execution_graph_def)
qed


text \<open>Completeness: what a search without a cycle has finished lies in the well-founded part.\<close>

lemma for_dependencies_acc:
  assumes f: "\<And>d st st'. f d st = Some (False, st') \<Longrightarrow> fst st - snd st \<subseteq> A \<Longrightarrow>
                fst st' - snd st' \<subseteq> A"
    and sh: "\<And>d st st'. f d st = Some (False, st') \<Longrightarrow>
                snd st' = snd st \<and> fst st \<subseteq> fst st' \<and> d \<in> fst st' \<and> d \<notin> snd st"
    and "for_dependencies f ds st = Some (False, st')" "fst st - snd st \<subseteq> A"
  shows "fst st' - snd st' \<subseteq> A"
  using assms(3,4)
proof (induction ds arbitrary: st)
  case Nil
  then show ?case by simp
next
  case (Cons d ds)
  from Cons.prems(1) obtain st1 where 1: "f d st = Some (False, st1)"
    and 2: "for_dependencies f ds st1 = Some (False, st')"
    by (auto split: option.splits if_splits)
  from f[OF 1 Cons.prems(2)] Cons.IH[OF 2] show ?case by blast
qed

lemma has_cycle_acc:
  "has_cycle n g v st = Some (False, st') \<Longrightarrow> fst st - snd st \<subseteq> Wellfounded.acc (depends_on g) \<Longrightarrow>
     fst st' - snd st' \<subseteq> Wellfounded.acc (depends_on g)"
proof (induction n arbitrary: v st st')
  case 0
  then show ?case by simp
next
  case (Suc n)
  let ?A = "Wellfounded.acc (depends_on g)"
  show ?case
  proof (cases "v \<in> snd st \<or> v \<in> fst st")
    case True
    with Suc.prems show ?thesis by (auto split: if_splits)
  next
    case False
    let ?st1 = "(insert v (fst st), insert v (snd st))"
    from False Suc.prems(1) obtain st2 where
      1: "for_dependencies (has_cycle n g) (dependencies g v) ?st1 = Some (False, st2)"
      and 2: "st' = (fst st2, snd st2 - {v})"
      by (auto split: option.splits if_splits)
    have b1: "fst ?st1 - snd ?st1 \<subseteq> ?A" using Suc.prems(2) by auto
    have acc2: "fst st2 - snd st2 \<subseteq> ?A"
    proof (rule for_dependencies_acc[where f = "has_cycle n g" and A = ?A and ds = "dependencies g v"
          and st = ?st1])
      show "fst ?st1 - snd ?st1 \<subseteq> ?A" by (rule b1)
      show "for_dependencies (has_cycle n g) (dependencies g v) ?st1 = Some (False, st2)" by (rule 1)
    qed (use Suc.IH has_cycle_shape in blast)+
    from for_dependencies_shape[of "has_cycle n g", OF has_cycle_shape 1]
    have sh: "snd st2 = insert v (snd st)" "set (dependencies g v) \<subseteq> fst st2 - insert v (snd st)"
      by auto
    have "v \<in> ?A"
    proof (rule accI)
      fix d assume "(d, v) \<in> depends_on g"
      then have "d \<in> set (dependencies g v)" by (simp add: depends_on_def)
      with sh acc2 show "d \<in> ?A" by auto
    qed
    with acc2 sh 2 show ?thesis by auto
  qed
qed

lemma check_all_nodes_acc:
  "check_all_nodes n g ns st = Some True \<Longrightarrow> snd st = {} \<Longrightarrow>
     fst st \<subseteq> Wellfounded.acc (depends_on g) \<Longrightarrow>
     node_id ` set ns \<subseteq> Wellfounded.acc (depends_on g)"
proof (induction ns arbitrary: st)
  case Nil
  then show ?case by simp
next
  case (Cons a ns)
  show ?case
  proof (cases "node_id a \<in> fst st")
    case True
    with Cons show ?thesis by auto
  next
    case False
    with Cons.prems(1) obtain st1 where 1: "has_cycle n g (node_id a) st = Some (False, st1)"
      and 2: "check_all_nodes n g ns st1 = Some True"
      by (auto split: option.splits if_splits)
    from has_cycle_shape[OF 1] Cons.prems(2)
    have s: "snd st1 = {}" "node_id a \<in> fst st1" by auto
    from has_cycle_acc[OF 1] Cons.prems(2,3) s
    have a: "fst st1 \<subseteq> Wellfounded.acc (depends_on g)" by auto
    from Cons.IH[OF 2 s(1) a] a s show ?thesis by auto
  qed
qed

lemma validate_true_acc:
  "validate_execution_graph g nodes = Some True \<Longrightarrow>
     node_id ` set nodes \<subseteq> Wellfounded.acc (depends_on g)"
  unfolding validate_execution_graph_def
  using check_all_nodes_acc[of "Suc (length g)" g nodes "({}, {})"] by simp

lemma cycle_not_acc:
  assumes "x \<in> Wellfounded.acc r"
  shows "(x, x) \<notin> r\<^sup>+"
  using assms
proof (induction rule: acc.induct)
  case (accI x)
  show ?case
  proof
    assume "(x, x) \<in> r\<^sup>+"
    then obtain z where z: "(x, z) \<in> r\<^sup>*" "(z, x) \<in> r"
      by (meson tranclD2)
    then have "(z, z) \<in> r\<^sup>+" by (meson rtrancl_into_trancl2)
    with accI.IH[OF z(2)] show False by simp
  qed
qed

text \<open>Soundness: a cycle is reported only where there is one.\<close>

lemma for_dependencies_sound:
  assumes f: "\<And>d st st'. d \<in> D \<Longrightarrow> snd st = S \<Longrightarrow> f d st = Some (True, st') \<Longrightarrow> C"
    and sh: "\<And>d st st'. f d st = Some (False, st') \<Longrightarrow> snd st' = snd st"
    and "for_dependencies f ds st = Some (True, st')" "snd st = S" "set ds \<subseteq> D"
  shows C
  using assms(3,4,5)
proof (induction ds arbitrary: st)
  case Nil
  then show ?case by simp
next
  case (Cons d ds)
  from Cons.prems(1) obtain b st1 where 1: "f d st = Some (b, st1)"
    by (auto split: option.splits)
  show ?case
  proof (cases b)
    case True
    with 1 f[of d st st1] Cons.prems(2,3) show ?thesis by simp
  next
    case False
    with 1 Cons.prems(1) have 2: "for_dependencies f ds st1 = Some (True, st')" by simp
    from False 1 sh[of d st st1] Cons.prems(2) have "snd st1 = S" by simp
    from Cons.IH[OF 2 this] Cons.prems(3) show ?thesis by simp
  qed
qed

lemma has_cycle_sound:
  "has_cycle n g v st = Some (True, st') \<Longrightarrow> \<forall>s \<in> snd st. (v, s) \<in> (depends_on g)\<^sup>+ \<Longrightarrow>
     \<exists>x. (x, x) \<in> (depends_on g)\<^sup>+"
proof (induction n arbitrary: v st st')
  case 0
  then show ?case by simp
next
  case (Suc n)
  show ?case
  proof (cases "v \<in> snd st")
    case True
    with Suc.prems(2) show ?thesis by blast
  next
    case False
    let ?st1 = "(insert v (fst st), insert v (snd st))"
    from False Suc.prems(1) have nv: "v \<notin> fst st" by (auto split: if_splits)
    with False Suc.prems(1) obtain st2 where
      1: "for_dependencies (has_cycle n g) (dependencies g v) ?st1 = Some (True, st2)"
      by (auto split: option.splits if_splits)
    show ?thesis
    proof (rule for_dependencies_sound[where D = "set (dependencies g v)"
          and S = "insert v (snd st)" and f = "has_cycle n g", OF _ _ 1])
      fix d s s' assume d: "d \<in> set (dependencies g v)" and s: "snd s = insert v (snd st)"
        and c: "has_cycle n g d s = Some (True, s')"
      from d have dv: "(d, v) \<in> depends_on g" by (simp add: depends_on_def)
      have "\<forall>x \<in> snd s. (d, x) \<in> (depends_on g)\<^sup>+"
      proof
        fix x assume "x \<in> snd s"
        with s have "x = v \<or> x \<in> snd st" by auto
        with dv Suc.prems(2) show "(d, x) \<in> (depends_on g)\<^sup>+"
          by (meson r_into_trancl' trancl_into_trancl2)
      qed
      from Suc.IH[OF c this] show "\<exists>x. (x, x) \<in> (depends_on g)\<^sup>+" .
    next
      fix d s s' assume "has_cycle n g d s = Some (False, s')"
      from has_cycle_shape[OF this] show "snd s' = snd s" by simp
    qed simp_all
  qed
qed

lemma check_all_nodes_sound:
  "check_all_nodes n g ns st = Some False \<Longrightarrow> snd st = {} \<Longrightarrow>
     \<exists>x. (x, x) \<in> (depends_on g)\<^sup>+"
proof (induction ns arbitrary: st)
  case Nil
  then show ?case by simp
next
  case (Cons a ns)
  show ?case
  proof (cases "node_id a \<in> fst st")
    case True
    with Cons show ?thesis by auto
  next
    case False
    with Cons.prems(1) obtain b st1 where 1: "has_cycle n g (node_id a) st = Some (b, st1)"
      by (auto split: option.splits)
    show ?thesis
    proof (cases b)
      case True
      with 1 has_cycle_sound[of n g "node_id a" st st1] Cons.prems(2) show ?thesis by simp
    next
      case f: False
      with 1 have h1: "has_cycle n g (node_id a) st = Some (False, st1)" by simp
      from has_cycle_shape[OF h1] Cons.prems(2) have "snd st1 = {}" by simp
      moreover from h1 False Cons.prems(1) have "check_all_nodes n g ns st1 = Some False" by simp
      ultimately show ?thesis using Cons.IH by blast
    qed
  qed
qed

lemma validate_false_cycle:
  "validate_execution_graph g nodes = Some False \<Longrightarrow> \<exists>x. (x, x) \<in> (depends_on g)\<^sup>+"
  unfolding validate_execution_graph_def
  using check_all_nodes_sound[of "Suc (length g)" g nodes "({}, {})"] by simp

text \<open>The graph that is built has the edges as its dependency relation.\<close>

lemma dependencies_update:
  "dependencies (AList.update k v g) k' = (if k' = k then v else dependencies g k')"
  by (simp add: dependencies_def update_conv')

lemma fold_nodes_graph:
  "distinct (map fst g) \<Longrightarrow>
   distinct (map fst (fold (\<lambda>n g. AList.update (node_id n) [] g) nodes g))
   \<and> fst ` set (fold (\<lambda>n g. AList.update (node_id n) [] g) nodes g) = fst ` set g \<union> node_id ` set nodes
   \<and> (\<forall>k. dependencies (fold (\<lambda>n g. AList.update (node_id n) [] g) nodes g) k =
          (if k \<in> node_id ` set nodes then [] else dependencies g k))"
proof (induction nodes arbitrary: g)
  case Nil
  then show ?case by simp
next
  case (Cons n nodes)
  have d: "distinct (map fst (AList.update (node_id n) [] g))"
    using Cons.prems by (rule distinct_update)
  from Cons.IH[OF d] show ?case
    by (auto simp: dependencies_update dom_update)
qed

lemma fold_edges_graph:
  "distinct (map fst g) \<Longrightarrow> (\<forall>k. distinct (dependencies g k)) \<Longrightarrow>
   distinct (map fst (fold (\<lambda>e g. AList.update (target e) (set_add (source e) (dependencies g (target e))) g) edges g))
   \<and> fst ` set (fold (\<lambda>e g. AList.update (target e) (set_add (source e) (dependencies g (target e))) g) edges g)
       = fst ` set g \<union> target ` set edges
   \<and> (\<forall>k. distinct (dependencies (fold (\<lambda>e g. AList.update (target e) (set_add (source e) (dependencies g (target e))) g) edges g) k)
          \<and> set (dependencies (fold (\<lambda>e g. AList.update (target e) (set_add (source e) (dependencies g (target e))) g) edges g) k) =
          set (dependencies g k) \<union> {source e | e. e \<in> set edges \<and> target e = k})"
proof (induction edges arbitrary: g)
  case Nil
  then show ?case by simp
next
  case (Cons e edges)
  let ?g = "AList.update (target e) (set_add (source e) (dependencies g (target e))) g"
  have d: "distinct (map fst ?g)"
    using Cons.prems(1) by (rule distinct_update)
  have dd: "\<forall>k. distinct (dependencies ?g k)"
    using Cons.prems(2) by (auto simp: dependencies_update set_add_def)
  have s: "set (dependencies ?g k) = set (dependencies g k) \<union> (if k = target e then {source e} else {})" for k
    by (auto simp: dependencies_update set_add_def)
  have k: "fst ` set ?g = insert (target e) (fst ` set g)"
    by (simp add: dom_update)
  from Cons.IH[OF d dd] s k show ?case
    by (simp only: fold_simps) (auto simp del: fold_simps)
qed

lemma build_execution_graph_props:
  "distinct (map fst (build_execution_graph nodes edges))"
  "fst ` set (build_execution_graph nodes edges) = node_id ` set nodes \<union> target ` set edges"
  "distinct (dependencies (build_execution_graph nodes edges) k)"
  "set (dependencies (build_execution_graph nodes edges) k) = {source e | e. e \<in> set edges \<and> target e = k}"
proof -
  let ?g0 = "fold (\<lambda>n g. AList.update (node_id n) [] g) nodes ([] :: graph)"
  have e: "dependencies [] k = []" for k by (simp add: dependencies_def)
  have g0: "distinct (map fst ?g0)" "fst ` set ?g0 = node_id ` set nodes" "\<forall>k. dependencies ?g0 k = []"
    using fold_nodes_graph[of "[] :: graph" nodes] e by simp_all
  then have "\<forall>k. distinct (dependencies ?g0 k)" by simp
  from fold_edges_graph[OF g0(1) this, of edges] g0
  show "distinct (map fst (build_execution_graph nodes edges))"
    "fst ` set (build_execution_graph nodes edges) = node_id ` set nodes \<union> target ` set edges"
    "distinct (dependencies (build_execution_graph nodes edges) k)"
    "set (dependencies (build_execution_graph nodes edges) k) = {source e | e. e \<in> set edges \<and> target e = k}"
    unfolding build_execution_graph_def by auto
qed

lemma depends_on_build:
  "depends_on (build_execution_graph nodes edges) = edge_relation edges"
  by (auto simp: depends_on_def edge_relation_def build_execution_graph_props(4) image_iff)




section \<open>Properties of the execution order\<close>

lemma hit_subset: "set (hit c items) \<subseteq> fst ` set items"
  by (auto simp: hit_def)

lemma distinct_hit: "distinct (map fst items) \<Longrightarrow> distinct (hit c items)"
  unfolding hit_def by (induction items) (auto simp: image_iff)

lemma map_of_decrement:
  "map_of (AList.map_entry k (\<lambda>x. x - 1) d) k' =
     (if k' = k then map_option (\<lambda>x. x - 1) (map_of d k) else map_of d k')"
  by (simp add: map_of_map_entry split: option.splits)

lemma fold_decrement:
  assumes "distinct (map fst items)"
  shows "map_of (fst (fold (decrement c) items (d, q))) k =
           (if k \<in> set (hit c items) then map_option (\<lambda>x. x - 1) (map_of d k) else map_of d k)
       \<and> snd (fold (decrement c) items (d, q)) =
           q @ filter (\<lambda>k. map_of d k = Some 1) (hit c items)
       \<and> map fst (fst (fold (decrement c) items (d, q))) = map fst d"
  using assms
proof (induction items arbitrary: d q)
  case Nil
  then show ?case by (simp add: hit_def)
next
  case (Cons p items)
  obtain k ds where p: "p = (k, ds)" by (cases p)
  from Cons.prems p have k: "k \<notin> fst ` set items" and di: "distinct (map fst items)" by auto
  show ?case
  proof (cases "c \<in> set ds")
    case False
    then have "decrement c p (d, q) = (d, q)" "hit c (p # items) = hit c items"
      using p by (simp_all add: decrement_def hit_def)
    with Cons.IH[OF di, of d q] show ?thesis by simp
  next
    case True
    let ?d1 = "AList.map_entry k (\<lambda>x. x - 1) d"
    let ?q1 = "if map_of d k = Some 1 then q @ [k] else q"
    have z: "(map_of ?d1 k = Some 0) = (map_of d k = Some 1)"
      by (cases "map_of d k") (auto simp: map_of_decrement)
    have dec: "decrement c p (d, q) = (?d1, ?q1)"
      using True p z by (simp add: decrement_def Let_def)
    have h: "hit c (p # items) = k # hit c items"
      using True p by (simp add: hit_def)
    have nk: "k \<notin> set (hit c items)" using k hit_subset by blast
    have same: "map_of ?d1 k' = map_of d k'" if "k' \<in> set (hit c items)" for k'
      using that nk by (auto simp: map_of_decrement)
    have f: "filter (\<lambda>k'. map_of ?d1 k' = Some 1) (hit c items)
           = filter (\<lambda>k'. map_of d k' = Some 1) (hit c items)"
      by (rule filter_cong) (simp_all add: same)
    have keys: "map fst ?d1 = map fst d"
      by (induction d) auto
    from Cons.IH[OF di, of ?d1 ?q1] dec h nk f keys show ?thesis
      by (auto simp: map_of_decrement)
  qed
qed


lemma dependencies_entry:
  "distinct (map fst g) \<Longrightarrow> (k, ds) \<in> set g \<Longrightarrow> dependencies g k = ds"
  by (simp add: dependencies_def)

lemma hit_iff:
  assumes "distinct (map fst g)"
  shows "k \<in> set (hit c g) \<longleftrightarrow> c \<in> set (dependencies g k)"
proof
  assume "k \<in> set (hit c g)"
  then obtain ds where "(k, ds) \<in> set g" "c \<in> set ds" by (auto simp: hit_def)
  with dependencies_entry[OF assms] show "c \<in> set (dependencies g k)" by simp
next
  assume c: "c \<in> set (dependencies g k)"
  then obtain ds where m: "map_of g k = Some ds" "c \<in> set ds"
    by (cases "map_of g k") (auto simp: dependencies_def)
  then have "(k, ds) \<in> set g" by (simp add: map_of_SomeD)
  with m show "k \<in> set (hit c g)" by (force simp: hit_def)
qed

lemma kahn_step:
  assumes dg: "distinct (map fst g)" and inv: "kahn_inv g d (c # queue) order"
  shows "kahn_inv g (fst (fold (decrement c) g (d, queue)))
           (snd (fold (decrement c) g (d, queue))) (order @ [c])"
proof -
  let ?d' = "fst (fold (decrement c) g (d, queue))"
  let ?q' = "snd (fold (decrement c) g (d, queue))"
  let ?new = "filter (\<lambda>k. map_of d k = Some 1) (hit c g)"
  let ?U = "fst ` set d"
  let ?deps = "\<lambda>k. set (dependencies g k)"
  from fold_decrement[OF dg, of c d queue]
  have F1: "\<And>k. map_of ?d' k = (if c \<in> ?deps k then map_option (\<lambda>x. x - 1) (map_of d k) else map_of d k)"
    and F2: "?q' = queue @ ?new" and F3: "map fst ?d' = map fst d"
    by (simp_all add: hit_iff[OF dg])
  from F3 have U': "fst ` set ?d' = ?U" by (metis list.set_map)
  from inv have i1: "distinct (order @ c # queue)" and i2: "set (order @ c # queue) \<subseteq> ?U"
    and i3: "fst ` set g \<subseteq> ?U"
    and i4: "\<And>k. k \<in> ?U \<Longrightarrow> map_of d k = Some (int (card (?deps k - set order)))"
    and i5: "\<And>k. k \<in> ?U \<Longrightarrow> (k \<in> set (order @ c # queue)) = (?deps k \<subseteq> set order)"
    and i6: "\<And>i. i < length order \<Longrightarrow> ?deps (order ! i) \<subseteq> set (take i order)"
    unfolding kahn_inv_def by blast+
  from i1 have c_new: "c \<notin> set order" "c \<notin> set queue" by auto
  from i2 have cU: "c \<in> ?U" by simp
  have newU: "set ?new \<subseteq> ?U" using hit_subset[of c g] i3 by auto
  have one: "?deps k - set order = {c}" if "k \<in> ?U" "c \<in> ?deps k" "map_of d k = Some 1" for k
  proof -
    from that i4 have "card (?deps k - set order) = 1" by simp
    moreover have "c \<in> ?deps k - set order" using that c_new by simp
    ultimately show ?thesis by (metis card_1_singletonE singletonD)
  qed
  have new_iff: "k \<in> set ?new \<longleftrightarrow> c \<in> ?deps k \<and> map_of d k = Some 1" for k
    by (auto simp: hit_iff[OF dg])
  have new_fresh: "k \<notin> set (order @ c # queue)" if "k \<in> set ?new" for k
  proof -
    from that newU have kU: "k \<in> ?U" by blast
    from that new_iff have "c \<in> ?deps k" "map_of d k = Some 1" by auto
    from one[OF kU this] c_new have "\<not> ?deps k \<subseteq> set order" by auto
    with i5[OF kU] show ?thesis by simp
  qed
  have a: "distinct ((order @ [c]) @ ?q')"
  proof -
    have "distinct ?new" by (simp add: distinct_hit[OF dg])
    with i1 new_fresh show ?thesis unfolding F2 by auto
  qed
  have b: "set ((order @ [c]) @ ?q') \<subseteq> fst ` set ?d'"
    using i2 newU unfolding F2 U' by auto
  have c': "fst ` set g \<subseteq> fst ` set ?d'" using i3 U' by simp
  have d': "map_of ?d' k = Some (int (card (?deps k - set (order @ [c]))))" if "k \<in> ?U" for k
  proof (cases "c \<in> ?deps k")
    case True
    then have cin: "c \<in> ?deps k - set order" using c_new by simp
    have "?deps k - set (order @ [c]) = (?deps k - set order) - {c}" by auto
    then have "card (?deps k - set (order @ [c])) = card (?deps k - set order) - 1"
      using cin by (simp add: card_Diff_singleton)
    moreover have "card (?deps k - set order) > 0" using cin by (metis card_gt_0_iff empty_iff finite_Diff List.finite_set)
    ultimately have "int (card (?deps k - set (order @ [c]))) = int (card (?deps k - set order)) - 1"
      by simp
    with True F1[of k] i4[OF that] show ?thesis by simp
  next
    case False
    then have "?deps k - set (order @ [c]) = ?deps k - set order" by auto
    with False F1[of k] i4[OF that] show ?thesis by simp
  qed
  have e: "(k \<in> set ((order @ [c]) @ ?q')) = (?deps k \<subseteq> set (order @ [c]))" if "k \<in> ?U" for k
  proof
    assume "k \<in> set ((order @ [c]) @ ?q')"
    then consider "k \<in> set (order @ c # queue)" | "k \<in> set ?new" unfolding F2 by auto
    then show "?deps k \<subseteq> set (order @ [c])"
    proof cases
      case 1
      with i5[OF that] show ?thesis by auto
    next
      case 2
      with new_iff have "c \<in> ?deps k" "map_of d k = Some 1" by auto
      from one[OF that this] show ?thesis by auto
    qed
  next
    assume s: "?deps k \<subseteq> set (order @ [c])"
    show "k \<in> set ((order @ [c]) @ ?q')"
    proof (cases "?deps k \<subseteq> set order")
      case True
      with i5[OF that] show ?thesis unfolding F2 by auto
    next
      case False
      with s have cd: "c \<in> ?deps k" by auto
      with s c_new have "?deps k - set order = {c}" by auto
      with i4[OF that] have "map_of d k = Some 1" by simp
      with cd new_iff have "k \<in> set ?new" by simp
      then show ?thesis unfolding F2 by simp
    qed
  qed
  have f: "?deps ((order @ [c]) ! i) \<subseteq> set (take i (order @ [c]))" if "i < length (order @ [c])" for i
  proof (cases "i < length order")
    case True
    with i6[OF True] show ?thesis by (simp add: nth_append)
  next
    case False
    with that have "i = length order" by simp
    moreover from i5[OF cU] have "?deps c \<subseteq> set order" by simp
    ultimately show ?thesis by simp
  qed
  show ?thesis
    unfolding kahn_inv_def U' using a b c' d' e f U' by (intro conjI ballI allI impI) auto
qed


lemma kahn_loop_inv:
  "distinct (map fst g) \<Longrightarrow> kahn_inv g d queue order \<Longrightarrow>
     \<exists>d'. kahn_inv g d' [] (kahn_loop g d queue order) \<and> fst ` set d' = fst ` set d"
proof (induction g d queue order rule: kahn_loop.induct)
  case (1 g d execution_order)
  then show ?case by auto
next
  case (2 g d current queue execution_order)
  let ?d' = "fst (fold (decrement current) g (d, queue))"
  from kahn_step[OF "2.prems"]
  have "kahn_inv g ?d' (snd (fold (decrement current) g (d, queue))) (execution_order @ [current])" .
  from "2.IH"[OF "2.prems"(1) this] obtain d2 where
    "kahn_inv g d2 [] (kahn_loop g d (current # queue) execution_order)"
    "fst ` set d2 = fst ` set ?d'" by auto
  moreover have "fst ` set ?d' = fst ` set d"
    using fold_decrement[OF "2.prems"(1), of current d queue] by (metis list.set_map)
  ultimately show ?case by auto
qed

lemma fold_in_degree_nodes:
  "distinct (map fst d) \<Longrightarrow>
   distinct (map fst (fold (\<lambda>n d. AList.update (node_id n) 0 d) nodes d))
   \<and> fst ` set (fold (\<lambda>n d. AList.update (node_id n) 0 d) nodes d) = fst ` set d \<union> node_id ` set nodes
   \<and> (\<forall>k. map_of (fold (\<lambda>n d. AList.update (node_id n) 0 d) nodes d) k =
          (if k \<in> node_id ` set nodes then Some 0 else map_of d k))"
proof (induction nodes arbitrary: d)
  case Nil
  then show ?case by simp
next
  case (Cons n nodes)
  have "distinct (map fst (AList.update (node_id n) 0 d))"
    using Cons.prems by (rule distinct_update)
  from Cons.IH[OF this] show ?case
    by (auto simp: update_conv' dom_update)
qed

lemma fold_in_degree_graph:
  "distinct (map fst d) \<Longrightarrow> distinct (map fst items) \<Longrightarrow>
   distinct (map fst (fold (\<lambda>(k, deps) d. AList.update k (int (length deps)) d) items d))
   \<and> fst ` set (fold (\<lambda>(k, deps) d. AList.update k (int (length deps)) d) items d)
       = fst ` set d \<union> fst ` set items
   \<and> (\<forall>k. map_of (fold (\<lambda>(k, deps) d. AList.update k (int (length deps)) d) items d) k =
          (case map_of items k of Some ds \<Rightarrow> Some (int (length ds)) | None \<Rightarrow> map_of d k))"
proof (induction items arbitrary: d)
  case Nil
  then show ?case by simp
next
  case (Cons p items)
  obtain k ds where p: "p = (k, ds)" by (cases p)
  from Cons.prems p have k: "map_of items k = None" and di: "distinct (map fst items)"
    by (auto simp: map_of_eq_None_iff)
  have "distinct (map fst (AList.update k (int (length ds)) d))"
    using Cons.prems(1) by (rule distinct_update)
  from Cons.IH[OF this di] p k show ?case
    by (auto simp: update_conv' dom_update split: option.splits)
qed

lemma initial_in_degree_props:
  assumes "distinct (map fst g)"
  shows "distinct (map fst (initial_in_degree g nodes))"
    and "fst ` set (initial_in_degree g nodes) = node_id ` set nodes \<union> fst ` set g"
    and "k \<in> node_id ` set nodes \<union> fst ` set g \<Longrightarrow>
           map_of (initial_in_degree g nodes) k = Some (int (length (dependencies g k)))"
proof -
  let ?d0 = "fold (\<lambda>n d. AList.update (node_id n) 0 d) nodes ([] :: in_degree)"
  from fold_in_degree_nodes[of "[] :: in_degree" nodes]
  have d0: "distinct (map fst ?d0)" "fst ` set ?d0 = node_id ` set nodes"
    "\<And>k. map_of ?d0 k = (if k \<in> node_id ` set nodes then Some 0 else None)" by simp_all
  from fold_in_degree_graph[OF d0(1) assms]
  have d: "distinct (map fst (initial_in_degree g nodes))"
    "fst ` set (initial_in_degree g nodes) = fst ` set ?d0 \<union> fst ` set g"
    "\<And>k. map_of (initial_in_degree g nodes) k =
          (case map_of g k of Some ds \<Rightarrow> Some (int (length ds)) | None \<Rightarrow> map_of ?d0 k)"
    unfolding initial_in_degree_def by blast+
  show "distinct (map fst (initial_in_degree g nodes))" by (rule d(1))
  show "fst ` set (initial_in_degree g nodes) = node_id ` set nodes \<union> fst ` set g"
    using d(2) d0(2) by simp
  assume kU: "k \<in> node_id ` set nodes \<union> fst ` set g"
  show "map_of (initial_in_degree g nodes) k = Some (int (length (dependencies g k)))"
  proof (cases "map_of g k")
    case None
    then have "k \<notin> fst ` set g" by (simp add: map_of_eq_None_iff)
    with kU have "k \<in> node_id ` set nodes" by simp
    with None show ?thesis unfolding d(3) d0(3) by (simp add: dependencies_def)
  next
    case (Some ds)
    then show ?thesis unfolding d(3) by (simp add: dependencies_def)
  qed
qed

lemma kahn_inv_initial:
  assumes dg: "distinct (map fst g)" and dd: "\<And>k. distinct (dependencies g k)"
  shows "kahn_inv g (initial_in_degree g nodes)
           (map fst (filter (\<lambda>p. snd p = 0) (initial_in_degree g nodes))) []"
proof -
  let ?d = "initial_in_degree g nodes"
  note p = initial_in_degree_props[OF dg, where nodes = nodes]
  have q: "k \<in> set (map fst (filter (\<lambda>p. snd p = 0) ?d)) \<longleftrightarrow> map_of ?d k = Some 0" for k
    using p(1) by (auto simp: image_iff)
  have dq: "distinct (map fst (filter (\<lambda>p. snd p = 0) ?d))"
    using p(1) by (simp add: distinct_map_filter)
  have m: "map_of ?d k = Some (int (card (set (dependencies g k))))" if "k \<in> fst ` set ?d" for k
    using p(3)[of k] that p(2) dd[of k] by (simp add: distinct_card)
  show ?thesis
    unfolding kahn_inv_def
  proof (intro conjI ballI allI impI)
    show "distinct ([] @ map fst (filter (\<lambda>p. snd p = 0) ?d))" using dq by simp
    show "set ([] @ map fst (filter (\<lambda>p. snd p = 0) ?d)) \<subseteq> fst ` set ?d" by auto
    show "fst ` set g \<subseteq> fst ` set ?d" using p(2) by auto
  next
    fix k assume "k \<in> fst ` set ?d"
    from m[OF this] show "map_of ?d k = Some (int (card (set (dependencies g k) - set [])))" by simp
  next
    fix k assume "k \<in> fst ` set ?d"
    from m[OF this] q[of k]
    show "(k \<in> set ([] @ map fst (filter (\<lambda>p. snd p = 0) ?d))) = (set (dependencies g k) \<subseteq> set [])"
      by auto
  qed simp
qed

text \<open>What the loop returns.\<close>

lemma calculate_execution_order_produced:
  "calculate_execution_order g nodes =
     (if length (produced_order g nodes) \<noteq> length nodes
      then Inl (ValueError ''Unable to determine execution order - graph may contain cycles'')
      else Inr (produced_order g nodes))"
  by (simp add: calculate_execution_order_def produced_order_def Let_def)

lemma kahn_result:
  assumes dg: "distinct (map fst g)" and dd: "\<And>k. distinct (dependencies g k)"
  shows "distinct (produced_order g nodes)"
    "set (produced_order g nodes) \<subseteq> node_id ` set nodes \<union> fst ` set g"
    "\<And>k. k \<in> node_id ` set nodes \<union> fst ` set g \<Longrightarrow>
        (k \<in> set (produced_order g nodes)) =
        (set (dependencies g k) \<subseteq> set (produced_order g nodes))"
    "\<And>i. i < length (produced_order g nodes) \<Longrightarrow>
        set (dependencies g (produced_order g nodes ! i)) \<subseteq> set (take i (produced_order g nodes))"
proof -
  let ?r = "produced_order g nodes"
  let ?U = "node_id ` set nodes \<union> fst ` set g"
  from kahn_loop_inv[OF dg kahn_inv_initial[OF dg dd, where nodes = nodes]]
  obtain d' where inv: "kahn_inv g d' [] ?r"
    and U: "fst ` set d' = ?U"
    unfolding produced_order_def using initial_in_degree_props(2)[OF dg, where nodes = nodes] by auto
  from inv U show "distinct ?r" "set ?r \<subseteq> ?U"
    "\<And>k. k \<in> ?U \<Longrightarrow> (k \<in> set ?r) = (set (dependencies g k) \<subseteq> set ?r)"
    "\<And>i. i < length ?r \<Longrightarrow> set (dependencies g (?r ! i)) \<subseteq> set (take i ?r)"
    unfolding kahn_inv_def by auto
qed

lemma kahn_complete:
  assumes dg: "distinct (map fst g)" and dd: "\<And>k. distinct (dependencies g k)"
    and fin: "finite (depends_on g)" and acyc: "\<And>x. (x, x) \<notin> (depends_on g)\<^sup>+"
    and closed: "\<And>k. set (dependencies g k) \<subseteq> node_id ` set nodes \<union> fst ` set g"
  shows "set (produced_order g nodes) = node_id ` set nodes \<union> fst ` set g"
proof -
  let ?r = "produced_order g nodes"
  let ?U = "node_id ` set nodes \<union> fst ` set g"
  note res = kahn_result[OF dg dd, where nodes = nodes]
  have "wf (depends_on g)"
    using fin acyc by (intro finite_acyclic_wf) (auto simp: acyclic_def)
  have "?U - set ?r = {}"
  proof (rule ccontr)
    assume "?U - set ?r \<noteq> {}"
    then obtain z0 where "z0 \<in> ?U - set ?r" by blast
    from wfE_min[OF \<open>wf (depends_on g)\<close> this] obtain z where
      z: "z \<in> ?U - set ?r" and min: "\<And>y. (y, z) \<in> depends_on g \<Longrightarrow> y \<notin> ?U - set ?r"
      by blast
    from z res(3)[of z] obtain y where y: "y \<in> set (dependencies g z)" "y \<notin> set ?r" by auto
    with closed[of z] have "y \<in> ?U - set ?r" by auto
    moreover from y have "(y, z) \<in> depends_on g" by (simp add: depends_on_def)
    ultimately show False using min by blast
  qed
  with res(2) show ?thesis by auto
qed


lemma takeWhile_distinct_nth:
  "distinct xs \<Longrightarrow> j < length xs \<Longrightarrow> takeWhile (\<lambda>x. x \<noteq> xs ! j) xs = take j xs"
proof (induction xs arbitrary: j)
  case Nil
  then show ?case by simp
next
  case (Cons x xs)
  show ?case
  proof (cases j)
    case 0
    then show ?thesis by simp
  next
    case (Suc i)
    with Cons.prems have "x \<noteq> xs ! i" by auto
    with Suc Cons show ?thesis by simp
  qed
qed

lemma acyclic_flow_order:
  assumes ids: "distinct (map node_id nodes)"
    and listed: "\<forall>e \<in> set edges. source e \<in> node_id ` set nodes \<and> target e \<in> node_id ` set nodes"
    and acyc: "acyclic (edge_relation edges)"
  shows "\<exists>order. calculate_execution_order (build_execution_graph nodes edges) nodes = Inr order
            \<and> distinct order \<and> set order = node_id ` set nodes
            \<and> (\<forall>e \<in> set edges. precedes order (source e) (target e))"
proof -
  let ?g = "build_execution_graph nodes edges"
  let ?r = "produced_order ?g nodes"
  let ?ids = "node_id ` set nodes"
  note b = build_execution_graph_props[of nodes edges]
  have U: "?ids \<union> fst ` set ?g = ?ids" using b(2) listed by auto
  have fin: "finite (depends_on ?g)" by (simp add: depends_on_build edge_relation_def)
  have ac: "\<And>x. (x, x) \<notin> (depends_on ?g)\<^sup>+"
    using acyc by (simp add: depends_on_build acyclic_def)
  have closed: "\<And>k. set (dependencies ?g k) \<subseteq> ?ids \<union> fst ` set ?g"
    using b(4) listed by auto
  have set_r: "set ?r = ?ids"
    using kahn_complete[OF b(1) b(3) fin ac closed] U by simp
  have dr: "distinct ?r" using kahn_result(1)[OF b(1) b(3)] .
  have "length ?r = card ?ids" using dr set_r by (metis distinct_card)
  also have "\<dots> = length nodes" using ids by (metis distinct_card length_map list.set_map)
  finally have len: "length ?r = length nodes" .
  have prec: "precedes ?r (source e) (target e)" if e: "e \<in> set edges" for e
  proof -
    from e listed set_r have t: "target e \<in> set ?r" by auto
    then obtain j where j: "j < length ?r" "?r ! j = target e" by (auto simp: in_set_conv_nth)
    from e b(4)[of "target e"] have "source e \<in> set (dependencies ?g (?r ! j))"
      using j(2) by auto
    with kahn_result(4)[OF b(1) b(3) j(1)] have "source e \<in> set (take j ?r)" by blast
    with takeWhile_distinct_nth[OF dr j(1)] j(2) t show ?thesis by (simp add: precedes_def)
  qed
  from len dr set_r prec
  show "\<exists>order. calculate_execution_order ?g nodes = Inr order
            \<and> distinct order \<and> set order = ?ids
            \<and> (\<forall>e \<in> set edges. precedes order (source e) (target e))"
    by (simp add: calculate_execution_order_produced)
qed

text \<open>
  C2. For a node list with unique ids, an edge list whose endpoints are all listed nodes
  and no cycle among the edges, the execution order is computed, it contains every
  node id exactly once, and for every edge the source comes before the target. Whenever
  the order that the loop produces has another length than the node list, the
  computation fails with the error instead of returning an order.
\<close>

theorem execution_order_topological:
  assumes ids: "distinct (map node_id nodes)"
    and listed: "\<forall>e \<in> set edges. source e \<in> node_id ` set nodes \<and> target e \<in> node_id ` set nodes"
    and acyc: "acyclic (edge_relation edges)"
  shows "(\<exists>order. calculate_execution_order (build_execution_graph nodes edges) nodes = Inr order
            \<and> distinct order \<and> set order = node_id ` set nodes
            \<and> (\<forall>e \<in> set edges. precedes order (source e) (target e)))
       \<and> (\<forall>g ns. length (produced_order g ns) \<noteq> length ns \<longrightarrow>
             calculate_execution_order g ns =
               Inl (ValueError ''Unable to determine execution order - graph may contain cycles''))"
  using acyclic_flow_order[OF assms] by (simp add: calculate_execution_order_produced)

lemma example_flow_order:
  "calculate_execution_order (build_execution_graph example_flow_nodes example_flow_edges)
       example_flow_nodes = Inr [''a'', ''bb'', ''ccc'']"
  by (simp add: calculate_execution_order_def build_execution_graph_def example_flow_nodes_def
      example_flow_edges_def dependencies_def set_add_def initial_in_degree_def decrement_def)

theorem execution_order_topological_witness:
  "distinct (map node_id example_flow_nodes)
   \<and> acyclic (edge_relation example_flow_edges)
   \<and> calculate_execution_order (build_execution_graph example_flow_nodes example_flow_edges)
       example_flow_nodes = Inr [''a'', ''bb'', ''ccc'']
   \<and> precedes [''a'', ''bb'', ''ccc''] ''a'' ''ccc''
   \<and> calculate_execution_order [(''a'', [''zz''])] [\<lparr>node_id = ''a'', component_type = ''text_input'', input_values = []\<rparr>]
       = Inl (ValueError ''Unable to determine execution order - graph may contain cycles'')"
proof -
  have d: "distinct (map node_id example_flow_nodes)" by (simp add: example_flow_nodes_def)
  have l: "\<forall>e \<in> set example_flow_edges. source e \<in> node_id ` set example_flow_nodes
            \<and> target e \<in> node_id ` set example_flow_nodes"
    by (simp add: example_flow_nodes_def example_flow_edges_def)
  have "edge_relation example_flow_edges \<subseteq> measure length"
    by (simp add: edge_relation_def example_flow_edges_def)
  then have a: "acyclic (edge_relation example_flow_edges)"
    by (rule acyclic_subset[OF wf_acyclic[OF wf_measure]])
  note t = execution_order_topological[OF d l a]
  have p: "precedes [''a'', ''bb'', ''ccc''] ''a'' ''ccc''"
    using t example_flow_order by (auto simp: example_flow_edges_def)
  have "length (produced_order [(''a'', [''zz''])] [\<lparr>node_id = ''a'', component_type = ''text_input'', input_values = []\<rparr>]) \<noteq> length [\<lparr>node_id = ''a'', component_type = ''text_input'', input_values = []\<rparr>]"
    by (simp add: produced_order_def initial_in_degree_def)
  with t have "calculate_execution_order [(''a'', [''zz''])] [\<lparr>node_id = ''a'', component_type = ''text_input'', input_values = []\<rparr>]
       = Inl (ValueError ''Unable to determine execution order - graph may contain cycles'')"
    by blast
  with d a p example_flow_order show ?thesis by blast
qed

section \<open>Properties of a run: failing executors\<close>

lemma frame_refl: "frame ids st st"
  by (simp add: frame_def)

lemma frame_trans: "frame a st st' \<Longrightarrow> frame b st' st'' \<Longrightarrow> frame (a \<union> b) st st''"
  unfolding frame_def by (auto; blast)

lemma frame_mono: "frame a st st' \<Longrightarrow> a \<subseteq> b \<Longrightarrow> frame b st st'"
  unfolding frame_def by (auto; blast)

lemma component_status_simps [simp]:
  "component_status (notify ev st) cid = component_status st cid"
  "component_status (log_execution l st) cid = component_status st cid"
  "component_status (update_execution_status s msg st) cid = component_status st cid"
  "component_status (st\<lparr>executor_calls := calls\<rparr>) cid = component_status st cid"
  "component_status (st\<lparr>execution := e\<rparr>) cid = component_status st cid"
  by (simp_all add: component_status_def notify_def log_execution_def update_execution_status_def)

lemma status_of_updated:
  assumes "\<And>c. c_component_id (h c) = c_component_id c"
  shows "map c_status (filter (\<lambda>c. c_component_id c = cid)
           (map (\<lambda>c. if c_component_id c = p then h c else c) cs)) =
         (if cid = p then map (\<lambda>c. c_status (h c)) (filter (\<lambda>c. c_component_id c = cid) cs)
          else map c_status (filter (\<lambda>c. c_component_id c = cid) cs))"
  using assms by (induction cs) auto

lemma component_status_update_status [simp]:
  "component_status (update_component_status p s msg st) cid =
     (if cid = p then map (\<lambda>_. s) (component_status st cid) else component_status st cid)"
  unfolding component_status_def update_component_status_def
  by (simp add: status_of_updated comp_def)

lemma component_status_update_execution [simp]:
  "component_status (update_component_execution p r st) cid =
     (if cid = p then map (\<lambda>_. if success r then Completed else Failed) (component_status st cid)
      else component_status st cid)"
  unfolding component_status_def update_component_execution_def
  by (simp add: status_of_updated comp_def)

lemma started_simps [simp]:
  "started (notify ev st) = (case ev of Component_started p \<Rightarrow> insert p (started st) | _ \<Rightarrow> started st)"
  "started (log_execution l st) = started st"
  "started (update_execution_status s msg st) = started st"
  "started (update_component_status p s msg st) = started st"
  "started (update_component_execution p r st) = started st"
  "started (st\<lparr>executor_calls := calls\<rparr>) = started st"
  "started (st\<lparr>execution := e\<rparr>) = started st"
  by (auto simp: started_def notify_def log_execution_def update_execution_status_def
      update_component_status_def update_component_execution_def split: event.splits)

lemma execution_simps [simp]:
  "execution (notify ev st) = execution st"
  "execution (log_execution l st) = execution st"
  "execution (update_component_status p s msg st) = execution st"
  "execution (update_component_execution p r st) = execution st"
  by (simp_all add: notify_def log_execution_def update_component_status_def
      update_component_execution_def)

lemma executor_calls_simps [simp]:
  "executor_calls (notify ev st) = executor_calls st"
  "executor_calls (log_execution l st) = executor_calls st"
  "executor_calls (update_execution_status s msg st) = executor_calls st"
  "executor_calls (update_component_status p s msg st) = executor_calls st"
  "executor_calls (update_component_execution p r st) = executor_calls st"
  by (simp_all add: notify_def log_execution_def update_component_status_def
      update_component_execution_def update_execution_status_def)

text \<open>The loop body when the executor returns a result.\<close>

lemma record_result_ok:
  assumes "0 < n"
  shows "\<exists>st' outs'. record_result i n p r outs st = ((st', outs'), None)
           \<and> frame {p} st st' \<and> started st' = started st
           \<and> component_status st' p = map (\<lambda>_. if success r then Completed else Failed) (component_status st p)"
  using assms
  by (auto simp: record_result_def update_execution_progress_def Let_def frame_def)

lemma step_frame:
  assumes "execute_component ex edges i n p nd outs st = ((st', outs'), e)"
  shows "frame {p} st st'"
proof -
  let ?st1 = "notify (Component_started p) (update_component_status p Running None
                (log_execution (Log_executing p) st))"
  have f1: "frame {p} st ?st1" by (auto simp: frame_def)
  have f2: "frame {p} s (notify (Component_failed p m) (log_execution l
              (update_component_status p Failed (Some m) s)))" for s m l
    by (auto simp: frame_def)
  have rr: "frame {p} s s'" if "record_result i n p r outs s = ((s', o'), e')" for s s' r o' e'
    using that
    by (auto simp: record_result_def update_execution_progress_def Let_def frame_def
        split: if_splits)
  have inv: "frame {p} s s'" if "invoke_executor ex i n p nd inp outs s = ((s', o'), e')"
    for s s' inp o' e'
  proof (cases "ex (component_type nd)")
    case None
    with that show ?thesis by (auto simp: invoke_executor_def frame_def)
  next
    case (Some f)
    show ?thesis
    proof (cases "f \<lparr>x_component_id = p, x_component_type = component_type nd,
                      x_config_data = nd, x_input_data = inp\<rparr>")
      case (Raises m)
      with Some that show ?thesis by (auto simp: invoke_executor_def frame_def)
    next
      case (Returns r)
      with Some that have "record_result i n p r outs (s\<lparr>executor_calls := executor_calls s @ [p]\<rparr>)
          = ((s', o'), e')" by (simp add: invoke_executor_def)
      from rr[OF this] show ?thesis by (auto simp: frame_def)
    qed
  qed
  obtain s2 o2 e2 where t: "try_component ex edges i n p nd outs st = ((s2, o2), e2)"
    by (metis surj_pair)
  have ft: "frame {p} st s2"
  proof (cases "prepare_component_input p edges outs nd")
    case (Inl err)
    with t f1 show ?thesis by (auto simp: try_component_def Let_def)
  next
    case (Inr inp)
    with t have "invoke_executor ex i n p nd inp outs ?st1 = ((s2, o2), e2)"
      by (simp add: try_component_def Let_def)
    from frame_trans[OF f1 inv[OF this]] show ?thesis by simp
  qed
  show ?thesis
  proof (cases e2)
    case None
    with t assms ft show ?thesis by (simp add: execute_component_def)
  next
    case (Some err)
    with t assms have "st' = notify (Component_failed p (str_of_error err))
        (log_execution (Log_component_failed p (str_of_error err))
           (update_component_status p Failed (Some (str_of_error err)) s2))"
      by (simp add: execute_component_def)
    with frame_trans[OF ft f2] show ?thesis by simp
  qed
qed

lemma step_returns:
  assumes wf: "list_all wf_edge edges" and n: "0 < n"
    and f: "ex (component_type nd) = Some f" and r: "\<forall>ctx. \<exists>r. f ctx = Returns r \<and> Q r"
  shows "\<exists>st' outs' r. execute_component ex edges i n p nd outs st = ((st', outs'), None)
           \<and> Q r \<and> p \<in> started st'
           \<and> component_status st' p = map (\<lambda>_. if success r then Completed else Failed) (component_status st p)"
proof -
  let ?st1 = "notify (Component_started p) (update_component_status p Running None
                (log_execution (Log_executing p) st))"
  from wf obtain inp where inp: "prepare_component_input p edges outs nd = Inr inp"
    using connect_edges_total by (fastforce simp: prepare_component_input_def)
  from r obtain res where res: "f \<lparr>x_component_id = p, x_component_type = component_type nd,
                      x_config_data = nd, x_input_data = inp\<rparr> = Returns res" "Q res" by blast
  let ?st2 = "?st1\<lparr>executor_calls := executor_calls ?st1 @ [p]\<rparr>"
  from record_result_ok[OF n, of i p res outs ?st2] obtain st' outs' where
    rr: "record_result i n p res outs ?st2 = ((st', outs'), None)" "started st' = started ?st2"
    "component_status st' p = map (\<lambda>_. if success res then Completed else Failed) (component_status ?st2 p)"
    by blast
  from rr(1) inp f res have "execute_component ex edges i n p nd outs st = ((st', outs'), None)"
    by (simp add: execute_component_def try_component_def invoke_executor_def Let_def)
  moreover from rr(2) have "p \<in> started st'" by simp
  moreover from rr(3) have "component_status st' p = map (\<lambda>_. if success res then Completed else Failed) (component_status st p)"
    by (simp add: comp_def)
  ultimately show ?thesis using res(2) by blast
qed

lemma step_raises:
  assumes wf: "list_all wf_edge edges"
    and f: "ex (component_type nd) = Some f" and r: "\<forall>ctx. f ctx = Raises m"
  shows "\<exists>st'. execute_component ex edges i n p nd outs st = ((st', outs), Some (Exception m))
           \<and> component_status st' p = map (\<lambda>_. Failed) (component_status st p)"
proof -
  from wf obtain inp where inp: "prepare_component_input p edges outs nd = Inr inp"
    using connect_edges_total by (fastforce simp: prepare_component_input_def)
  from inp f r show ?thesis
    by (simp add: execute_component_def try_component_def invoke_executor_def Let_def comp_def)
qed

text \<open>The loop over a stretch of the execution order.\<close>

lemma loop_frame:
  "execute_components ex nodes edges n ixs outs st = (st', e) \<Longrightarrow> frame (snd ` set ixs) st st'"
proof (induction ixs arbitrary: outs st)
  case Nil
  then show ?case by (simp add: frame_refl)
next
  case (Cons ix ixs)
  obtain i p where ix: "ix = (i, p)" by (cases ix)
  show ?case
  proof (cases "node_map nodes p")
    case None
    with Cons.prems ix show ?thesis by (simp add: frame_refl)
  next
    case (Some nd)
    obtain s1 o1 e1 where s: "execute_component ex edges i n p nd outs st = ((s1, o1), e1)"
      by (metis surj_pair)
    note f1 = step_frame[OF s]
    show ?thesis
    proof (cases e1)
      case None
      with Cons.prems ix Some s have "execute_components ex nodes edges n ixs o1 s1 = (st', e)"
        by simp
      from frame_trans[OF f1 Cons.IH[OF this]] ix show ?thesis by simp
    next
      case (Some err)
      with Cons.prems ix \<open>node_map nodes p = Some nd\<close> s have "st' = s1" by simp
      with f1 ix show ?thesis by (auto intro: frame_mono)
    qed
  qed
qed

lemma loop_prefix:
  assumes wf: "list_all wf_edge edges" and n: "0 < n"
  shows "\<forall>ix \<in> set ixs. returns_always ex nodes (snd ix) \<Longrightarrow>
     \<exists>st' outs'. (\<forall>rest. execute_components ex nodes edges n (ixs @ rest) outs st =
                        execute_components ex nodes edges n rest outs' st')
        \<and> frame (snd ` set ixs) st st'"
proof (induction ixs arbitrary: outs st)
  case Nil
  then show ?case by (auto simp: frame_refl)
next
  case (Cons ix ixs)
  obtain i p where ix: "ix = (i, p)" by (cases ix)
  from Cons.prems ix obtain nd f where nd: "node_map nodes p = Some nd"
    "ex (component_type nd) = Some f" "\<forall>ctx. \<exists>r. f ctx = Returns r \<and> True"
    by (auto simp: returns_always_def)
  from step_returns[where Q = "\<lambda>_. True" and i = i and p = p and outs = outs and st = st
      and ex = ex and nd = nd and f = f, OF wf n nd(2,3)] obtain s1 o1 where
    s: "execute_component ex edges i n p nd outs st = ((s1, o1), None)" by blast
  from Cons.IH[of o1 s1] Cons.prems obtain st' outs' where
    r: "\<forall>rest. execute_components ex nodes edges n (ixs @ rest) o1 s1 =
                        execute_components ex nodes edges n rest outs' st'"
    "frame (snd ` set ixs) s1 st'" by auto
  from frame_trans[OF step_frame[OF s] r(2)] ix have "frame (snd ` set (ix # ixs)) st st'" by simp
  moreover from r(1) s nd(1) ix have "\<forall>rest. execute_components ex nodes edges n ((ix # ixs) @ rest) outs st =
                        execute_components ex nodes edges n rest outs' st'" by simp
  ultimately show ?case by blast
qed


lemma node_map_listed:
  "p \<in> node_id ` set nodes \<Longrightarrow> \<exists>nd. node_map nodes p = Some nd"
  unfolding node_map_def by (cases "find (\<lambda>n. node_id n = p) (rev nodes)") (auto simp: find_None_iff)

lemma create_records:
  "\<forall>ix \<in> set ixs. snd ix \<in> node_id ` set nodes \<Longrightarrow>
   \<exists>cs. create_component_execution_records nodes ixs st =
           (st\<lparr>component_executions := component_executions st @ cs\<rparr>, None)
        \<and> map c_component_id cs = map snd ixs \<and> (\<forall>c \<in> set cs. c_status c = Pending)"
proof (induction ixs arbitrary: st)
  case Nil
  then show ?case by simp
next
  case (Cons ix ixs)
  obtain i p where ix: "ix = (i, p)" by (cases ix)
  with Cons.prems obtain nd where nd: "node_map nodes p = Some nd"
    using node_map_listed by fastforce
  let ?c = "\<lparr>c_component_id = p, c_component_type = component_type nd,
                   c_execution_order = i, c_status = Pending, c_output_data = None,
                   c_error_message = None\<rparr>"
  let ?st1 = "st\<lparr>component_executions := component_executions st @ [?c]\<rparr>"
  from Cons.IH[of ?st1] Cons.prems obtain cs where
    cs: "create_component_execution_records nodes ixs ?st1 =
           (?st1\<lparr>component_executions := component_executions ?st1 @ cs\<rparr>, None)"
      "map c_component_id cs = map snd ixs" "\<forall>c \<in> set cs. c_status c = Pending"
    by auto
  show ?case
    by (rule exI[of _ "?c # cs"]) (use cs nd ix in simp)
qed

lemma filter_distinct_single:
  "distinct (map f xs) \<Longrightarrow> x \<in> set xs \<Longrightarrow> filter (\<lambda>y. f y = f x) xs = [x]"
proof (induction xs)
  case Nil
  then show ?case by simp
next
  case (Cons a xs)
  show ?case
  proof (cases "a = x")
    case True
    with Cons.prems have "filter (\<lambda>y. f y = f x) xs = []"
      by (auto simp: filter_empty_conv image_iff)
    with True show ?thesis by simp
  next
    case False
    with Cons.prems have "x \<in> set xs" "f a \<noteq> f x" by (auto simp: image_iff)
    with Cons show ?thesis by simp
  qed
qed

lemma pending_after_create:
  assumes "map c_component_id cs = ids" "distinct ids" "\<forall>c \<in> set cs. c_status c = Pending"
    "component_executions st = cs" "p \<in> set ids"
  shows "component_status st p = [Pending]"
proof -
  from assms(1,5) obtain c where c: "c \<in> set cs" "c_component_id c = p" by auto
  from assms(1,2) have "distinct (map c_component_id cs)" by simp
  from filter_distinct_single[OF this c(1)] c(2) assms(3,4) c(1) show ?thesis
    by (simp add: component_status_def)
qed

lemma order_props:
  assumes ord: "calculate_execution_order (build_execution_graph nodes edges) nodes = Inr order"
    and tl: "\<forall>e \<in> set edges. target e \<in> node_id ` set nodes"
  shows "distinct order" "set order \<subseteq> node_id ` set nodes"
proof -
  let ?g = "build_execution_graph nodes edges"
  note b = build_execution_graph_props[of nodes edges]
  from ord have o: "order = produced_order ?g nodes"
    by (simp add: calculate_execution_order_produced split: if_splits)
  from kahn_result(1)[OF b(1) b(3)] o show "distinct order" by simp
  from kahn_result(2)[OF b(1) b(3), of nodes] o b(2) tl show "set order \<subseteq> node_id ` set nodes"
    by auto
qed

lemma run_start:
  assumes ord: "calculate_execution_order (build_execution_graph nodes edges) nodes = Inr order"
    and tl: "\<forall>e \<in> set edges. target e \<in> node_id ` set nodes"
  shows "\<exists>st2. run_flow ex nodes edges (build_execution_graph nodes edges) (initial_state n) =
            (case execute_components ex nodes edges (length order) (List.enumerate 0 order)
                    Map.empty st2 of
               (st3, Some err) \<Rightarrow> (st3, Some err)
             | (st3, None) \<Rightarrow> (finalize_execution st3, None))
         \<and> status (execution st2) = Running \<and> error_message (execution st2) = None
         \<and> (\<forall>p \<in> set order. component_status st2 p = [Pending])
         \<and> started st2 = {} \<and> executor_calls st2 = [] \<and> progress_events st2 = []"
proof -
  note op = order_props[OF ord tl]
  let ?ixs = "List.enumerate 0 order"
  have z: "zip [0..<length order] order = ?ixs" by (simp add: enumerate_eq_zip)
  have "\<forall>ix \<in> set ?ixs. snd ix \<in> node_id ` set nodes"
    using op(2) by (auto simp: in_set_enumerate_eq)
  from create_records[OF this, of "initial_state n"] obtain cs where
    cs: "create_component_execution_records nodes ?ixs (initial_state n) =
           ((initial_state n)\<lparr>component_executions := component_executions (initial_state n) @ cs\<rparr>, None)"
      "map c_component_id cs = map snd ?ixs" "\<forall>c \<in> set cs. c_status c = Pending"
    by blast
  let ?st1 = "(initial_state n)\<lparr>component_executions := cs\<rparr>"
  let ?st2 = "notify Execution_started (log_execution (Log_starting (length nodes))
                 (update_execution_status Running None ?st1))"
  from cs(1) have c1: "create_component_execution_records nodes ?ixs (initial_state n) = (?st1, None)"
    by (simp add: initial_state_def)
  have ids: "map c_component_id cs = order" using cs(2) by simp
  have pend: "component_status ?st2 p = [Pending]" if "p \<in> set order" for p
    using pending_after_create[OF ids op(1) cs(3), of ?st1 p] that by simp
  have "run_flow ex nodes edges (build_execution_graph nodes edges) (initial_state n) =
            (case execute_components ex nodes edges (length order) ?ixs Map.empty ?st2 of
               (st3, Some err) \<Rightarrow> (st3, Some err)
             | (st3, None) \<Rightarrow> (finalize_execution st3, None))"
    using ord c1 by (simp add: run_flow_def z Let_def)
  moreover have "status (execution ?st2) = Running" "error_message (execution ?st2) = None"
    "started ?st2 = {}" "executor_calls ?st2 = []" "progress_events ?st2 = []"
    by (simp_all add: update_execution_status_def initial_state_def started_def notify_def
        log_execution_def progress_events_def)
  ultimately show ?thesis using pend by blast
qed

lemma step_started:
  assumes "execute_component ex edges i n p nd outs st = ((st', outs'), e)"
  shows "p \<in> started st'"
proof -
  let ?st1 = "notify (Component_started p) (update_component_status p Running None
                (log_execution (Log_executing p) st))"
  have 1: "p \<in> started ?st1" by simp
  have rr: "started s \<subseteq> started s'" if "record_result i n p r outs s = ((s', o'), e')" for s s' r o' e'
    using that
    by (auto simp: record_result_def update_execution_progress_def Let_def split: if_splits)
  have inv: "started s \<subseteq> started s'" if "invoke_executor ex i n p nd inp outs s = ((s', o'), e')"
    for s s' inp o' e'
    using that rr
    by (auto simp: invoke_executor_def split: option.splits executor_outcome.splits)
       (metis started_simps(6) subsetD)+
  obtain s2 o2 e2 where t: "try_component ex edges i n p nd outs st = ((s2, o2), e2)"
    by (metis surj_pair)
  have "p \<in> started s2"
  proof (cases "prepare_component_input p edges outs nd")
    case (Inl err)
    with t 1 show ?thesis by (auto simp: try_component_def Let_def)
  next
    case (Inr inp)
    with t have "invoke_executor ex i n p nd inp outs ?st1 = ((s2, o2), e2)"
      by (simp add: try_component_def Let_def)
    from inv[OF this] 1 show ?thesis by blast
  qed
  with t assms show ?thesis
    by (cases e2) (auto simp: execute_component_def)
qed

lemma finalize_failed:
  assumes "Failed \<in> set (component_status st p)"
  shows "status (execution (finalize_execution st)) = Failed"
    "error_message (execution (finalize_execution st)) = Some ''One or more components failed''"
    "component_status (finalize_execution st) = component_status st"
    "started (finalize_execution st) = started st"
proof -
  from assms obtain c where "c \<in> set (component_executions st)" "c_status c = Failed"
    by (auto simp: component_status_def)
  then have "\<not> list_all (\<lambda>c. c_status c = Completed) (component_executions st)"
    by (force simp: list_all_iff)
  then have f: "finalize_execution st = notify (Execution_failed ''One or more components failed'')
          (update_execution_status Failed (Some ''One or more components failed'') st)"
    by (simp add: finalize_execution_def)
  show "status (execution (finalize_execution st)) = Failed"
    "error_message (execution (finalize_execution st)) = Some ''One or more components failed''"
    "component_status (finalize_execution st) = component_status st"
    "started (finalize_execution st) = started st"
    unfolding f by (auto simp: update_execution_status_def)
qed

lemma on_exception_error:
  "on_exception (st, Some err) =
     (notify (Execution_failed (str_of_error err))
        (log_execution (Log_execution_failed (str_of_error err))
           (update_execution_status Failed (Some (str_of_error err)) st)), Some err)"
  "on_exception (st, None) = (st, None)"
  by (simp_all add: on_exception_def)

lemma snd_set_enumerate: "snd ` set (List.enumerate k xs) = set xs"
  by (metis list.set_map map_snd_enumerate)

lemma percent_values: "percent 1 3 = 33" "percent 2 3 = 66" "percent 3 3 = 100"
  by code_simp+

lemma example_flow_valid:
  "validate_execution_graph (build_execution_graph example_flow_nodes example_flow_edges)
     example_flow_nodes = Some True"
  by (simp add: validate_execution_graph_def build_execution_graph_def example_flow_nodes_def
      example_flow_edges_def dependencies_def set_add_def)

lemma example_node_map:
  "node_map example_flow_nodes ''a'' =
     Some \<lparr>node_id = ''a'', component_type = ''text_input'', input_values = []\<rparr>"
  "node_map example_flow_nodes ''bb'' =
     Some \<lparr>node_id = ''bb'', component_type = ''prompt_template'', input_values = []\<rparr>"
  by (simp_all add: node_map_def example_flow_nodes_def)





section \<open>Progress values of a successful run\<close>

lemma validate_acyclic:
  assumes "acyclic (edge_relation edges)"
  shows "validate_execution_graph (build_execution_graph nodes edges) nodes = Some True"
proof -
  obtain b where b: "validate_execution_graph (build_execution_graph nodes edges) nodes = Some b"
    using validate_execution_graph_returns by blast
  have b
  proof (rule ccontr)
    assume "\<not> b"
    with b validate_false_cycle[of "build_execution_graph nodes edges" nodes]
    obtain x where "(x, x) \<in> (edge_relation edges)\<^sup>+" by (auto simp: depends_on_build)
    with assms show False by (simp add: acyclic_def)
  qed
  with b show ?thesis by simp
qed

lemma finalize_progress [simp]: "progress_events (finalize_execution st) = progress_events st"
  by (simp add: finalize_execution_def Let_def progress_events_def notify_def log_execution_def
      update_execution_status_def)

lemma successful_run_progress:
  assumes ids: "distinct (map node_id nodes)" and ne: "nodes \<noteq> []"
    and listed: "\<forall>e \<in> set edges. source e \<in> node_id ` set nodes \<and> target e \<in> node_id ` set nodes"
    and acyc: "acyclic (edge_relation edges)"
    and wf: "list_all wf_edge edges"
    and ok: "\<forall>p \<in> node_id ` set nodes. returns_always ex nodes p"
  shows "\<exists>st. execute_flow ex nodes edges = Some (st, None)
           \<and> progress_events st = map (\<lambda>k. percent (Suc k) (length nodes)) [0..<length nodes]"
proof -
  let ?g = "build_execution_graph nodes edges"
  from acyclic_flow_order[OF ids listed acyc] obtain order where
    ord: "calculate_execution_order ?g nodes = Inr order" and so: "set order = node_id ` set nodes"
    by blast
  from ord have len: "length order = length nodes"
    by (simp add: calculate_execution_order_produced split: if_splits)
  from listed have tl: "\<forall>e \<in> set edges. target e \<in> node_id ` set nodes" by simp
  from run_start[OF ord tl, of ex "length nodes"] obtain st2 where
    rf: "run_flow ex nodes edges ?g (initial_state (length nodes)) =
            (case execute_components ex nodes edges (length order) (List.enumerate 0 order)
                    Map.empty st2 of
               (st3, Some err) \<Rightarrow> (st3, Some err)
             | (st3, None) \<Rightarrow> (finalize_execution st3, None))"
    and p2: "progress_events st2 = []" by blast
  let ?ixs = "List.enumerate 0 order"
  have n0: "0 < length order" using len ne by simp
  have "\<forall>ix \<in> set ?ixs. returns_always ex nodes (snd ix)"
  proof
    fix ix assume "ix \<in> set ?ixs"
    then have "snd ix \<in> set order" by (metis imageI snd_set_enumerate)
    with ok so show "returns_always ex nodes (snd ix)" by blast
  qed
  from loop_prefix[OF wf n0 this, of Map.empty st2] obtain st3 outs3 where
    "execute_components ex nodes edges (length order) (?ixs @ []) Map.empty st2 =
       execute_components ex nodes edges (length order) [] outs3 st3" by blast
  then have loop: "execute_components ex nodes edges (length order) ?ixs Map.empty st2 = (st3, None)"
    by simp
  have "map (\<lambda>p. percent (Suc (fst p)) (length order)) ?ixs =
        map (\<lambda>k. percent (Suc k) (length order)) (map fst ?ixs)"
    by (simp only: map_map comp_def)
  with execute_components_progress[OF loop] p2
  have "progress_events st3 = map (\<lambda>k. percent (Suc k) (length order)) (map fst ?ixs)"
    by simp
  then have p3: "progress_events st3 = map (\<lambda>k. percent (Suc k) (length nodes)) [0..<length nodes]"
    by (simp add: len)
  have "execute_flow ex nodes edges = Some (finalize_execution st3, None)"
    using validate_acyclic[OF acyc, of nodes] ne rf loop
    by (simp add: execute_flow_def on_exception_def)
  with p3 show ?thesis by simp
qed

text \<open>
  The rounding to a double is monotone, so the progress values of a run never decrease
  and stay between 0 and 100.
\<close>

lemma round_half_even_bounds:
  "\<lfloor>m\<rfloor> \<le> round_half_even m" "round_half_even m \<le> \<lfloor>m\<rfloor> + 1"
  by (auto simp: round_half_even_def Let_def)

lemma round_half_even_int [simp]: "round_half_even (of_int k) = k"
  by (simp add: round_half_even_def)

lemma round_half_even_mono:
  assumes "m \<le> m'"
  shows "round_half_even m \<le> round_half_even m'"
proof (cases "\<lfloor>m\<rfloor> = \<lfloor>m'\<rfloor>")
  case False
  with assms have "\<lfloor>m\<rfloor> < \<lfloor>m'\<rfloor>" by (simp add: floor_mono order.strict_iff_order)
  with round_half_even_bounds(2)[of m] round_half_even_bounds(1)[of m'] show ?thesis by linarith
next
  case True
  with assms have "m - of_int \<lfloor>m\<rfloor> \<le> m' - of_int \<lfloor>m'\<rfloor>" by simp
  with True show ?thesis by (auto simp: round_half_even_def Let_def)
qed

lemma binary_exponent_bounds:
  assumes "0 < x"
  shows "2 powi binary_exponent x \<le> x" "x < 2 powi (binary_exponent x + 1)"
proof -
  obtain p q where pq: "quotient_of x = (p, q)" by (cases "quotient_of x")
  then have q: "0 < q" and x: "x = of_int p / of_int q"
    using quotient_of_denom_pos quotient_of_div by blast+
  with assms have p: "0 < p" by (simp add: zero_less_divide_iff)
  let ?bp = "bitlen p" and ?bq = "bitlen q"
  from p q have b1: "1 \<le> ?bp" "1 \<le> ?bq"
    using bitlen_eq_zero_iff bitlen_nonneg by (smt (verit))+
  have pw: "2 powi k = (of_int (2 ^ nat k) :: rat)" if "0 \<le> k" for k
    using that by (simp add: power_int_def)
  have pb1: "2 powi (?bp - 1) \<le> (of_int p :: rat)"
  proof -
    have "2 powi (?bp - 1) = (of_int (2 ^ nat (?bp - 1)) :: rat)" using b1 by (intro pw) simp
    also have "\<dots> \<le> of_int p" using bitlen_bounds[OF p] by (simp only: of_int_le_iff)
    finally show ?thesis .
  qed
  have pb2: "(of_int p :: rat) < 2 powi ?bp"
  proof -
    have "(of_int p :: rat) < of_int (2 ^ nat ?bp)"
      using bitlen_bounds[OF p] by (simp only: of_int_less_iff)
    also have "\<dots> = 2 powi ?bp" using b1 by (intro pw[symmetric]) simp
    finally show ?thesis .
  qed
  have qb1: "2 powi (?bq - 1) \<le> (of_int q :: rat)"
  proof -
    have "2 powi (?bq - 1) = (of_int (2 ^ nat (?bq - 1)) :: rat)" using b1 by (intro pw) simp
    also have "\<dots> \<le> of_int q" using bitlen_bounds[OF q] by (simp only: of_int_le_iff)
    finally show ?thesis .
  qed
  have qb2: "(of_int q :: rat) < 2 powi ?bq"
  proof -
    have "(of_int q :: rat) < of_int (2 ^ nat ?bq)"
      using bitlen_bounds[OF q] by (simp only: of_int_less_iff)
    also have "\<dots> = 2 powi ?bq" using b1 by (intro pw[symmetric]) simp
    finally show ?thesis .
  qed
  note pb = pb1 pb2 and qb = qb1 qb2
  have p2: "0 < (2::rat) powi k" for k by (simp add: zero_less_power_int)
  have qpos: "0 < (of_int q :: rat)" using q by simp
  have ppos: "0 < (of_int p :: rat)" using p by simp
  have up: "x < 2 powi (?bp - ?bq + 1)"
  proof -
    have "x < 2 powi ?bp / of_int q" unfolding x using pb(2) qpos by (simp add: divide_strict_right_mono)
    also have "\<dots> \<le> 2 powi ?bp / 2 powi (?bq - 1)"
      using qb(1) qpos p2 by (intro divide_left_mono) (auto intro: mult_pos_pos)
    also have "\<dots> = 2 powi (?bp - (?bq - 1))" by (simp add: power_int_diff)
    finally show ?thesis by (simp add: algebra_simps)
  qed
  have lo: "2 powi (?bp - ?bq - 1) \<le> x"
  proof -
    have "2 powi (?bp - ?bq - 1) = 2 powi (?bp - 1) / (2 powi ?bq :: rat)"
      by (simp add: power_int_diff[symmetric] algebra_simps)
    also have "\<dots> \<le> of_int p / 2 powi ?bq" using pb(1) by (simp add: divide_right_mono)
    also have "\<dots> \<le> of_int p / of_int q"
      using qb(2) ppos qpos p2 by (intro divide_left_mono) (auto intro: mult_pos_pos)
    finally show ?thesis unfolding x .
  qed
  show "2 powi binary_exponent x \<le> x" "x < 2 powi (binary_exponent x + 1)"
    using up lo by (auto simp: binary_exponent_def pq Let_def)
qed


lemma round_to_double_nonneg: "0 \<le> round_to_double x"
proof (cases "x \<le> 0")
  case True
  then show ?thesis by (simp add: round_to_double_def)
next
  case False
  let ?u = "(2::rat) powi (binary_exponent x - 52)"
  have u: "0 < ?u" by (simp add: zero_less_power_int)
  with False have "0 \<le> x / ?u" by simp
  then have "0 \<le> \<lfloor>x / ?u\<rfloor>" by simp
  with round_half_even_bounds(1)[of "x / ?u"] have "0 \<le> round_half_even (x / ?u)" by linarith
  with u False show ?thesis by (simp add: round_to_double_def Let_def)
qed

lemma round_to_double_binade:
  assumes "0 < x"
  shows "2 powi binary_exponent x \<le> round_to_double x"
    and "round_to_double x \<le> 2 powi (binary_exponent x + 1)"
proof -
  let ?e = "binary_exponent x"
  let ?u = "(2::rat) powi (?e - 52)"
  have u: "0 < ?u" by (simp add: zero_less_power_int)
  have lo_eq: "(2::rat) powi ?e = of_int (2 ^ 52) * ?u"
    by (simp add: power_int_diff)
  have hi_eq: "(2::rat) powi (?e + 1) = of_int (2 ^ 53) * ?u"
    by (simp add: power_int_diff power_int_add)
  have rd: "round_to_double x = of_int (round_half_even (x / ?u)) * ?u"
    using assms by (simp add: round_to_double_def Let_def)
  from binary_exponent_bounds[OF assms] have "of_int (2 ^ 52) * ?u \<le> x" "x \<le> of_int (2 ^ 53) * ?u"
    unfolding lo_eq hi_eq by simp_all
  with u have "of_int (2 ^ 52) \<le> x / ?u" "x / ?u \<le> of_int (2 ^ 53)"
    by (simp_all add: pos_le_divide_eq pos_divide_le_eq)
  then have "round_half_even (of_int (2 ^ 52)) \<le> round_half_even (x / ?u)"
    "round_half_even (x / ?u) \<le> round_half_even (of_int (2 ^ 53))"
    by (simp_all only: round_half_even_mono)
  then have "2 ^ 52 \<le> round_half_even (x / ?u)" "round_half_even (x / ?u) \<le> 2 ^ 53"
    by (simp_all only: round_half_even_int)
  then have "(of_int (2 ^ 52) :: rat) \<le> of_int (round_half_even (x / ?u))"
    "(of_int (round_half_even (x / ?u)) :: rat) \<le> of_int (2 ^ 53)"
    by (simp_all only: of_int_le_iff)
  with u have "of_int (2 ^ 52) * ?u \<le> of_int (round_half_even (x / ?u)) * ?u"
    "of_int (round_half_even (x / ?u)) * ?u \<le> of_int (2 ^ 53) * ?u"
    by (simp_all only: mult_le_cancel_right_pos)
  then show "2 powi ?e \<le> round_to_double x" "round_to_double x \<le> 2 powi (?e + 1)"
    unfolding lo_eq hi_eq rd by simp_all
qed

lemma binary_exponent_mono:
  assumes "0 < x" "x \<le> y"
  shows "binary_exponent x \<le> binary_exponent y"
proof (rule ccontr)
  assume "\<not> ?thesis"
  then have "binary_exponent y + 1 \<le> binary_exponent x" by simp
  then have "(2::rat) powi (binary_exponent y + 1) \<le> 2 powi binary_exponent x"
    by (intro power_int_increasing) simp_all
  moreover from assms have "0 < y" by simp
  ultimately show False
    using binary_exponent_bounds(1)[OF assms(1)] binary_exponent_bounds(2)[OF \<open>0 < y\<close>] assms(2)
    by linarith
qed

lemma round_to_double_mono:
  assumes "x \<le> y"
  shows "round_to_double x \<le> round_to_double y"
proof (cases "x \<le> 0")
  case True
  then have "round_to_double x = 0" by (simp add: round_to_double_def)
  then show ?thesis by (simp add: round_to_double_nonneg)
next
  case False
  then have x: "0 < x" by simp
  with assms have y: "0 < y" by simp
  from binary_exponent_mono[OF x assms]
  consider "binary_exponent x = binary_exponent y" | "binary_exponent x + 1 \<le> binary_exponent y"
    by linarith
  then show ?thesis
  proof cases
    case 1
    let ?u = "(2::rat) powi (binary_exponent y - 52)"
    have u: "0 < ?u" by (simp add: zero_less_power_int)
    with assms have "x / ?u \<le> y / ?u" by (simp add: divide_right_mono)
    then have "round_half_even (x / ?u) \<le> round_half_even (y / ?u)" by (rule round_half_even_mono)
    then have "(of_int (round_half_even (x / ?u)) :: rat) \<le> of_int (round_half_even (y / ?u))"
      by (simp only: of_int_le_iff)
    with u have "of_int (round_half_even (x / ?u)) * ?u \<le> of_int (round_half_even (y / ?u)) * ?u"
      by (simp only: mult_le_cancel_right_pos)
    with x y 1 show ?thesis by (simp add: round_to_double_def Let_def)
  next
    case 2
    then have "(2::rat) powi (binary_exponent x + 1) \<le> 2 powi binary_exponent y"
      by (intro power_int_increasing) simp_all
    with round_to_double_binade(2)[OF x] round_to_double_binade(1)[OF y] show ?thesis by linarith
  qed
qed

lemma round_to_double_1: "round_to_double 1 = 1"
  by code_simp

lemma round_to_double_100: "round_to_double 100 = 100"
  by code_simp

lemma percent_mono:
  assumes "k \<le> k'"
  shows "percent k n \<le> percent k' n"
proof -
  from assms have "(of_nat k :: rat) / of_nat n \<le> of_nat k' / of_nat n"
    by (simp add: divide_right_mono)
  then have "round_to_double (of_nat k / of_nat n) * 100 \<le> round_to_double (of_nat k' / of_nat n) * 100"
    using round_to_double_mono by simp
  then show ?thesis unfolding percent_def by (intro floor_mono round_to_double_mono)
qed

lemma percent_range:
  assumes "k \<le> n" "0 < n"
  shows "0 \<le> percent k n" "percent k n \<le> 100"
proof -
  show "0 \<le> percent k n" unfolding percent_def using round_to_double_nonneg by simp
  from assms have "(of_nat k :: rat) / of_nat n \<le> 1" by simp
  from round_to_double_mono[OF this] have "round_to_double (of_nat k / of_nat n) * 100 \<le> 100"
    by (simp add: round_to_double_1)
  from round_to_double_mono[OF this] have "round_to_double (round_to_double (of_nat k / of_nat n) * 100) \<le> 100"
    by (simp add: round_to_double_100)
  then have "\<lfloor>round_to_double (round_to_double (of_nat k / of_nat n) * 100)\<rfloor> \<le> \<lfloor>100::rat\<rfloor>"
    by (rule floor_mono)
  then show "percent k n \<le> 100" unfolding percent_def by simp
qed

lemma percent_complete: "0 < n \<Longrightarrow> percent n n = 100"
  by (simp add: percent_def round_to_double_1 round_to_double_100)

lemma successful_run_progress_range:
  assumes ids: "distinct (map node_id nodes)" and ne: "nodes \<noteq> []"
    and listed: "\<forall>e \<in> set edges. source e \<in> node_id ` set nodes \<and> target e \<in> node_id ` set nodes"
    and acyc: "acyclic (edge_relation edges)"
    and wf: "list_all wf_edge edges"
    and ok: "\<forall>p \<in> node_id ` set nodes. returns_always ex nodes p"
  shows "\<exists>st. execute_flow ex nodes edges = Some (st, None)
           \<and> sorted (progress_events st)
           \<and> (\<forall>v \<in> set (progress_events st). 0 \<le> v \<and> v \<le> 100)
           \<and> last (progress_events st) = 100"
proof -
  let ?n = "length nodes"
  let ?f = "\<lambda>k. percent (Suc k) ?n"
  from successful_run_progress[OF assms] obtain st where
    st: "execute_flow ex nodes edges = Some (st, None)"
    and pe: "progress_events st = map ?f [0..<?n]" by blast
  from ne have n: "0 < ?n" by simp
  have "sorted (map ?f [0..<?n])"
    by (simp add: sorted_iff_nth_mono percent_mono)
  moreover have "\<forall>v \<in> set (map ?f [0..<?n]). 0 \<le> v \<and> v \<le> 100"
    using n by (auto intro: percent_range)
  moreover have "last (map ?f [0..<?n]) = 100"
  proof -
    from n obtain m where m: "?n = Suc m" by (cases ?n) simp_all
    have "last (map ?f [0..<Suc m]) = ?f m" by simp
    with m percent_complete[OF n] show ?thesis by simp
  qed
  ultimately show ?thesis using st pe by simp
qed

text \<open>
  C8. In a run in which every node succeeds the progress values sent are
  \<open>int((k / N) * 100)\<close> for \<open>k = 1..N\<close> (\<open>successful_run_progress\<close>), computed in
  floating point. In the flow of fifty nodes the quotient 29/50 is rounded to a double
  just below 0.58, the product to a double just below 58, and the 29th value sent is
  57, not \<open>\<lfloor>(29/50)\<cdot>100\<rfloor> = 58\<close>. The values sent are still non-decreasing,
  between 0 and 100, and end at 100 (\<open>successful_run_progress_range\<close>).
\<close>

theorem progress_below_floor:
  "length (run_progress (execute_flow all_succeed fifty_nodes [])) = 50
   \<and> run_progress (execute_flow all_succeed fifty_nodes []) ! 28 = 57
   \<and> \<lfloor>(of_nat 29 / of_nat 50 :: rat) * 100\<rfloor> = 58"
proof -
  have l: "length fifty_nodes = 50" by (simp add: fifty_nodes_def)
  have "inj_on (\<lambda>i. replicate (Suc i) CHR ''n'') (set [0..<50])"
    by (rule inj_onI) (metis length_replicate nat.inject)
  then have d: "distinct (map node_id fifty_nodes)"
    by (simp add: fifty_nodes_def comp_def distinct_map)
  have ne: "fifty_nodes \<noteq> []" using l by auto
  have a: "acyclic (edge_relation [])" by (simp add: edge_relation_def acyclic_def)
  have ok: "\<forall>p \<in> node_id ` set fifty_nodes. returns_always all_succeed fifty_nodes p"
  proof
    fix p assume p: "p \<in> node_id ` set fifty_nodes"
    from node_map_listed[OF this] obtain nd where "node_map fifty_nodes p = Some nd" by blast
    then show "returns_always all_succeed fifty_nodes p"
      by (auto simp: returns_always_def all_succeed_def succeeding_executor_def)
  qed
  from successful_run_progress[OF d ne _ a _ ok] obtain st where
    st: "execute_flow all_succeed fifty_nodes [] = Some (st, None)"
    "progress_events st = map (\<lambda>k. percent (Suc k) (length fifty_nodes)) [0..<length fifty_nodes]"
    by auto
  have "percent 29 50 = 57" by code_simp
  with st l have "run_progress (execute_flow all_succeed fifty_nodes []) ! 28 = 57"
    "length (run_progress (execute_flow all_succeed fifty_nodes [])) = 50"
    by (simp_all add: run_progress_def)
  moreover have "\<lfloor>(of_nat 29 / of_nat 50 :: rat) * 100\<rfloor> = 58" by code_simp
  ultimately show ?thesis by simp
qed

end
